theory Spec2Isabelle
  imports Main "HOL-Library.Word" "HOL-Library.Monad_Syntax" "HOL-Library.Sublist"
begin

unbundle bit_operations_syntax

section \<open>Types (type.c)\<close>

text \<open>
  A type is an object with a kind and a set of items; which items a kind carries is given
  by the table \<open>has_map\<close>. An identifier is an interned string, so two identifier handles
  are equal exactly when the strings are. A \<open>type_t\<close> is a pointer to an object: the
  object's address \<open>t_addr\<close> stands for the pointer, so \<open>a == b\<close> in the source is
  \<open>t_addr a = t_addr b\<close> here, and an item that is \<open>NULL\<close> is \<open>None\<close>.
  Trees (constraints, range bounds, field declarations) are opaque handles; a field
  declaration is represented by the type \<open>tree_type\<close> gives for it.
\<close>

type_synonym ident = string
type_synonym tree = nat

datatype type_kind =
  T_SUBTYPE | T_INTEGER | T_REAL | T_ENUM | T_PHYSICAL | T_CARRAY | T_UARRAY | T_RECORD
  | T_FILE | T_ACCESS | T_FUNC | T_INCOMPLETE | T_PROC | T_NONE | T_PROTECTED

datatype imask =
  I_IDENT | I_BASE | I_RESOLUTION | I_CONSTR | I_DIMS | I_LITERALS | I_UNITS | I_ELEM
  | I_INDEXCON | I_FIELDS | I_FILE | I_ACCESS | I_PTYPES | I_RESULT | I_TEXT_BUF | I_DECLS
  | I_REF

datatype range_kind = RANGE_TO | RANGE_DOWNTO

datatype range = Range (r_kind: range_kind) (r_left: tree) (r_right: tree)

datatype type_obj =
  Type_obj (t_addr: nat) (t_kind: type_kind) (t_ident: "ident option")
    (t_base: "type_obj option") (t_constr: "tree option") (t_dims: "range list")
    (t_elem: "type_obj option") (t_indexcon: "type_obj list") (t_fields: "type_obj list")
    (t_access: "type_obj option") (t_ptypes: "type_obj list") (t_result: "type_obj option")

fun has_map :: "type_kind \<Rightarrow> imask set" where
  "has_map T_SUBTYPE = {I_IDENT, I_BASE, I_RESOLUTION, I_CONSTR}"
| "has_map T_INTEGER = {I_IDENT, I_DIMS}"
| "has_map T_REAL = {I_IDENT, I_DIMS}"
| "has_map T_ENUM = {I_IDENT, I_LITERALS, I_DIMS}"
| "has_map T_PHYSICAL = {I_IDENT, I_UNITS, I_DIMS}"
| "has_map T_CARRAY = {I_IDENT, I_ELEM, I_DIMS}"
| "has_map T_UARRAY = {I_IDENT, I_INDEXCON, I_ELEM}"
| "has_map T_RECORD = {I_IDENT, I_FIELDS}"
| "has_map T_FILE = {I_IDENT, I_FILE}"
| "has_map T_ACCESS = {I_IDENT, I_ACCESS}"
| "has_map T_FUNC = {I_IDENT, I_PTYPES, I_RESULT, I_TEXT_BUF}"
| "has_map T_INCOMPLETE = {I_IDENT}"
| "has_map T_PROC = {I_IDENT, I_PTYPES, I_TEXT_BUF}"
| "has_map T_NONE = {I_IDENT}"
| "has_map T_PROTECTED = {I_IDENT, I_DECLS, I_REF}"

text \<open>
  Modelled from the spec: \<open>lookup_item\<close> lives in the object store, which is not among
  the sources. The spec says that each kind has a has-map defining which slots are legal
  and that touching an absent slot fails; the failure is \<open>None\<close>.
\<close>

definition lookup_item :: "type_obj \<Rightarrow> imask \<Rightarrow> (type_obj \<Rightarrow> 'a) \<Rightarrow> 'a option" where
  "lookup_item t i sel = (if i \<in> has_map (t_kind t) then Some (sel t) else None)"

text \<open>In every function below \<open>None\<close> is a failed assertion or a fatal error.\<close>

definition type_has_ident :: "type_obj \<Rightarrow> bool option" where
  "type_has_ident t = map_option (\<lambda>i. i \<noteq> None) (lookup_item t I_IDENT t_ident)"

definition type_base :: "type_obj \<Rightarrow> type_obj option" where
  "type_base t = Option.bind (lookup_item t I_BASE t_base) id"

lemma type_base_size: "type_base t = Some b \<Longrightarrow> size b < size t"
  by (cases t) (auto simp: type_base_def lookup_item_def split: if_splits)

function type_ident :: "type_obj \<Rightarrow> ident option" where
  "type_ident t =
     (case lookup_item t I_IDENT t_ident of
        None \<Rightarrow> None
      | Some None \<Rightarrow>
          (if t_kind t = T_SUBTYPE then
             (case type_base t of None \<Rightarrow> None | Some b \<Rightarrow> type_ident b)
           else if t_kind t = T_NONE then Some ''none''
           else None)
      | Some (Some i) \<Rightarrow> Some i)"
  by pat_completeness auto
termination
  by (relation "measure size") (auto dest: type_base_size)

declare type_ident.simps [simp del]

definition type_dims :: "type_obj \<Rightarrow> nat option" where
  "type_dims t = map_option length (lookup_item t I_DIMS t_dims)"

function type_base_kind :: "type_obj \<Rightarrow> type_kind option" where
  "type_base_kind t =
     (if t_kind t = T_SUBTYPE then
        (case type_base t of None \<Rightarrow> None | Some b \<Rightarrow> type_base_kind b)
      else Some (t_kind t))"
  by pat_completeness auto
termination
  by (relation "measure size") (auto dest: type_base_size)

declare type_base_kind.simps [simp del]

definition type_universal_int_ident :: ident where
  "type_universal_int_ident = ''universal_integer''"

definition type_universal_real_ident :: ident where
  "type_universal_real_ident = ''universal_real''"

definition type_is_universal :: "type_obj \<Rightarrow> bool option" where
  "type_is_universal t =
     (case lookup_item t I_IDENT t_ident of
        None \<Rightarrow> None
      | Some item \<Rightarrow>
          (case t_kind t of
             T_INTEGER \<Rightarrow> Some (item = Some type_universal_int_ident)
           | T_REAL \<Rightarrow> Some (item = Some type_universal_real_ident)
           | _ \<Rightarrow> Some False))"

definition type_is_convertible :: "type_obj \<Rightarrow> type_obj \<Rightarrow> bool option" where
  "type_is_convertible from to =
     (case type_base_kind from of
        None \<Rightarrow> None
      | Some fromk \<Rightarrow>
     (case type_base_kind to of
        None \<Rightarrow> None
      | Some tok \<Rightarrow>
          if fromk = T_NONE then Some True
          else if type_is_universal from \<noteq> Some True then Some False
          else if type_is_universal to = Some True then Some False
          else if fromk = T_INTEGER \<and> tok = T_INTEGER then Some True
          else if fromk = T_REAL \<and> tok = T_REAL then Some True
          else Some False))"

function type_base_recur :: "type_obj \<Rightarrow> type_obj option" where
  "type_base_recur t =
     (if t_kind t = T_SUBTYPE then
        (case type_base t of None \<Rightarrow> None | Some b \<Rightarrow> type_base_recur b)
      else Some t)"
  by pat_completeness auto
termination
  by (relation "measure size") (auto dest: type_base_size)

declare type_base_recur.simps [simp del]

function type_elem :: "type_obj \<Rightarrow> type_obj option" where
  "type_elem t =
     (if t_kind t = T_SUBTYPE then
        (case type_base t of None \<Rightarrow> None | Some b \<Rightarrow> type_elem b)
      else if t_kind t = T_NONE then Some t
      else Option.bind (lookup_item t I_ELEM t_elem) id)"
  by pat_completeness auto
termination
  by (relation "measure size") (auto dest: type_base_size)

declare type_elem.simps [simp del]

text \<open>\<open>type_access\<close> does not assert: the inner \<open>None\<close> is a \<open>NULL\<close> result.\<close>

function type_access :: "type_obj \<Rightarrow> type_obj option option" where
  "type_access t =
     (if t_kind t = T_SUBTYPE then
        (case type_base t of None \<Rightarrow> None | Some b \<Rightarrow> type_access b)
      else lookup_item t I_ACCESS t_access)"
  by pat_completeness auto
termination
  by (relation "measure size") (auto dest: type_base_size)

declare type_access.simps [simp del]

definition type_result :: "type_obj \<Rightarrow> type_obj option" where
  "type_result t = Option.bind (lookup_item t I_RESULT t_result) id"

definition type_params :: "type_obj \<Rightarrow> nat option" where
  "type_params t = map_option length (lookup_item t I_PTYPES t_ptypes)"

fun params_eq ::
  "(type_obj \<Rightarrow> type_obj \<Rightarrow> bool option) \<Rightarrow> type_obj list \<Rightarrow> type_obj list \<Rightarrow> bool option"
where
  "params_eq f (x # xs) (y # ys) =
     (case f x y of None \<Rightarrow> None | Some r \<Rightarrow> if r then params_eq f xs ys else Some False)"
| "params_eq f _ _ = Some True"

lemma params_eq_cong [fundef_cong]:
  "xs = xs' \<Longrightarrow> ys = ys' \<Longrightarrow> (\<And>x y. x \<in> set xs' \<Longrightarrow> y \<in> set ys' \<Longrightarrow> f x y = g x y)
   \<Longrightarrow> params_eq f xs ys = params_eq g xs' ys'"
proof (induction g xs' ys' arbitrary: xs ys rule: params_eq.induct)
  case (1 g x xs' y ys')
  then show ?case by (auto split: option.splits)
qed auto

lemma type_base_recur_size: "type_base_recur t = Some b \<Longrightarrow> size b \<le> size t"
proof (induction t rule: type_base_recur.induct)
  case (1 t)
  then show ?case
    by (subst (asm) (2) type_base_recur.simps)
       (auto split: if_splits option.splits dest: type_base_size)
qed

lemma type_base_recur_kind: "type_base_recur t = Some b \<Longrightarrow> t_kind b \<noteq> T_SUBTYPE"
proof (induction t rule: type_base_recur.induct)
  case (1 t)
  then show ?case
    by (subst (asm) (2) type_base_recur.simps) (auto split: if_splits option.splits)
qed

lemma type_elem_size:
  "type_elem t = Some e \<Longrightarrow> I_ELEM \<in> has_map (t_kind t) \<Longrightarrow> size e < size t"
  by (cases t) (auto simp: type_elem.simps lookup_item_def split: if_splits)

lemma type_access_size:
  "type_access t = Some (Some e) \<Longrightarrow> t_kind t = T_ACCESS \<Longrightarrow> size e < size t"
  by (cases t) (auto simp: type_access.simps lookup_item_def split: if_splits)

lemma type_result_size: "type_result t = Some e \<Longrightarrow> size e < size t"
  by (cases t) (auto simp: type_result_def lookup_item_def split: if_splits)

lemma size_list_member: "x \<in> set xs \<Longrightarrow> size x \<le> size_list size xs"
  by (induction xs) auto

lemma type_param_size: "x \<in> set (t_ptypes t) \<Longrightarrow> size x < size t"
  by (cases t) (auto dest: size_list_member)

function type_strict_eq :: "type_obj \<Rightarrow> type_obj \<Rightarrow> bool option"
  and type_eq :: "type_obj \<Rightarrow> type_obj \<Rightarrow> bool option"
where
  "type_strict_eq a b =
     (if t_addr a = t_addr b then Some True
      else if t_kind a \<noteq> t_kind b then Some False
      else if type_has_ident a = Some True \<and> type_has_ident b = Some True
              \<and> type_ident a \<noteq> type_ident b then Some False
      else if t_kind a = T_ACCESS then
        (case (type_access a, type_access b) of
           (Some (Some x), Some (Some y)) \<Rightarrow> type_eq x y
         | _ \<Rightarrow> None)
      else if I_ELEM \<in> has_map (t_kind a) then
        (case (type_elem a, type_elem b) of
           (Some x, Some y) \<Rightarrow> type_strict_eq x y
         | _ \<Rightarrow> None)
      else if I_DIMS \<in> has_map (t_kind a) \<and> type_dims a \<noteq> type_dims b then Some False
      else
        (case (if t_kind a = T_FUNC then
                 (case (type_result a, type_result b) of
                    (Some x, Some y) \<Rightarrow> type_strict_eq x y
                  | _ \<Rightarrow> None)
               else Some True) of
           None \<Rightarrow> None
         | Some r \<Rightarrow>
             if \<not> r then Some False
             else if I_PTYPES \<in> has_map (t_kind a) then
               (if type_params a \<noteq> type_params b then Some False
                else params_eq type_strict_eq (t_ptypes a) (t_ptypes b))
             else Some True))"
| "type_eq a0 b0 =
     (if t_addr a0 = t_addr b0 then Some True
      else
        (case (type_base_recur a0, type_base_recur b0) of
           (Some a, Some b) \<Rightarrow>
             (let kind_a = t_kind a; kind_b = t_kind b;
                  compare_c_u_arrays =
                    (kind_a = T_CARRAY \<and> kind_b = T_UARRAY
                     \<or> kind_a = T_UARRAY \<and> kind_b = T_CARRAY);
                  incomplete = (kind_a = T_INCOMPLETE \<or> kind_b = T_INCOMPLETE)
              in
              if kind_a \<noteq> kind_b \<and> \<not> compare_c_u_arrays \<and> \<not> incomplete then Some False
              else if type_has_ident a = Some True \<and> type_has_ident b = Some True
                      \<and> type_ident a \<noteq> type_ident b then Some False
              else if incomplete then Some True
              else if kind_a = T_ACCESS then
                (case (type_access a, type_access b) of
                   (Some (Some x), Some (Some y)) \<Rightarrow> type_eq x y
                 | _ \<Rightarrow> None)
              else if compare_c_u_arrays then
                (case (type_elem a, type_elem b) of
                   (Some x, Some y) \<Rightarrow> type_eq x y
                 | _ \<Rightarrow> None)
              else if I_DIMS \<in> has_map (t_kind a) \<and> type_dims a \<noteq> type_dims b
                then Some False
              else
                (case (if t_kind a = T_FUNC then
                         (case (type_result a, type_result b) of
                            (Some x, Some y) \<Rightarrow> type_eq x y
                          | _ \<Rightarrow> None)
                       else Some True) of
                   None \<Rightarrow> None
                 | Some r \<Rightarrow>
                     if \<not> r then Some False
                     else if I_PTYPES \<in> has_map (t_kind a) then
                       (if type_params a \<noteq> type_params b then Some False
                        else params_eq type_eq (t_ptypes a) (t_ptypes b))
                     else Some True))
         | _ \<Rightarrow> None))"
  by pat_completeness auto
termination
  apply (relation "measure (\<lambda>x. case x of Inl (a, b) \<Rightarrow> size a | Inr (a, b) \<Rightarrow> size a)")
  apply (auto dest: type_elem_size [OF sym] type_access_size [OF sym]
      type_result_size [OF sym] type_param_size dest!: type_base_recur_size [OF sym])
  done

declare type_strict_eq.simps [simp del] type_eq.simps [simp del]

subsection \<open>Some concrete types\<close>

definition t_none :: type_obj where
  "t_none = Type_obj 1 T_NONE None None None [] None [] [] None [] None"

definition t_integer :: type_obj where
  "t_integer = Type_obj 2 T_INTEGER (Some ''STD.STANDARD.INTEGER'') None None
     [Range RANGE_TO 0 1] None [] [] None [] None"

definition t_universal_int :: type_obj where
  "t_universal_int = Type_obj 3 T_INTEGER (Some ''universal_integer'') None None
     [Range RANGE_TO 2 3] None [] [] None [] None"

definition t_real :: type_obj where
  "t_real = Type_obj 4 T_REAL (Some ''STD.STANDARD.REAL'') None None
     [Range RANGE_TO 4 5] None [] [] None [] None"

definition t_sub_integer :: type_obj where
  "t_sub_integer = Type_obj 5 T_SUBTYPE None (Some t_integer) (Some 6) [] None [] [] None [] None"

definition t_sub_real :: type_obj where
  "t_sub_real = Type_obj 6 T_SUBTYPE None (Some t_real) (Some 7) [] None [] [] None [] None"

section \<open>Type layout (jit-layout.c, two copies)\<close>

subsection \<open>More of type.c\<close>

















subsection \<open>Helpers of common.c and util.h\<close>


text \<open>
  Modelled from the spec: \<open>ALIGN_UP\<close> is a macro of util.h, which is not among the
  sources. The spec's layout rules use it for the \<open>ceil\<close> of a division and for
  the \<open>aligned offset\<close> of a field: it rounds up to the next multiple of the alignment.
\<close>

definition ALIGN_UP :: "int \<Rightarrow> int \<Rightarrow> int" where
  "ALIGN_UP p a = ((p + a - 1) div a) * a"




subsection \<open>Layouts\<close>

text \<open>
  The declaration of \<open>jit_layout_t\<close> is not among the sources either. The fields are
  the ones the code assigns; the classes are in the order in which \<open>print_layout\<close>
  names them, so that \<open>LC_DATA\<close> is the class of a part that was allocated by
  \<open>xcalloc_flex\<close> and never given one. Numbers are mathematical integers: the
  widths of the fields are unknown and overflow of the \<open>int\<close> locals is undefined.
  \<open>nparts\<close> is the length of \<open>parts\<close>.
\<close>

datatype layout_class_t = LC_DATA | LC_BOUNDS | LC_OFFSET | LC_EXTERNAL

record layout_part_t =
  lp_offset :: int
  lp_size :: int
  lp_repeat :: int
  lp_align :: int
  lp_class :: layout_class_t

record jit_layout_t =
  l_size :: int
  l_align :: int
  l_parts :: "layout_part_t list"

definition l_nparts :: "jit_layout_t \<Rightarrow> nat" where
  "l_nparts l = length (l_parts l)"




text \<open>The loop over the fields of a record: the parts, and the final offset.\<close>

fun record_loop ::
  "(type_obj \<Rightarrow> jit_layout_t option) \<Rightarrow> layout_class_t \<Rightarrow> type_obj list \<Rightarrow> int
     \<Rightarrow> (layout_part_t list \<times> int) option"
where
  "record_loop layout cls [] offset = Some ([], offset)"
| "record_loop layout cls (ftype # ftypes) offset =
     (case layout ftype of
        None \<Rightarrow> None
      | Some fl \<Rightarrow>
          (let offset' = ALIGN_UP offset (l_align fl) in
           case record_loop layout cls ftypes (offset' + l_size fl) of
             None \<Rightarrow> None
           | Some (ps, offset'') \<Rightarrow>
               Some (\<lparr>lp_offset = offset', lp_size = l_size fl, lp_repeat = 1,
                       lp_align = l_align fl, lp_class = cls\<rparr> # ps, offset'')))"

lemma record_loop_cong [fundef_cong]:
  "fs = fs' \<Longrightarrow> cls = cls' \<Longrightarrow> off = off' \<Longrightarrow> (\<And>f. f \<in> set fs' \<Longrightarrow> g f = h f)
   \<Longrightarrow> record_loop g cls fs off = record_loop h cls' fs' off'"
proof (induction h cls' fs' off' arbitrary: fs off rule: record_loop.induct)
  case (1 layout cls offset)
  then show ?case by simp
next
  case (2 layout cls ftype ftypes offset)
  then show ?case by (auto simp: Let_def split: option.splits)
qed







text \<open>
  The second copy never assigns the class of a part: it stays what \<open>xcalloc_flex\<close>
  left, the class with value 0.
\<close>

definition calloc_class :: layout_class_t where
  "calloc_class = LC_DATA"



subsection \<open>A concrete instance\<close>








subsection \<open>Comparing the two copies\<close>

text \<open>
  \<open>clear_class\<close> forgets the classes of a layout. \<open>no_dynamic_subtype\<close> holds of a type
  when no array that \<open>layout_of\<close> reaches in it (the type itself, the element of an array
  with a static element count, the fields of a record) is a subtype whose element count
  is not static.
\<close>

definition clear_class :: "jit_layout_t \<Rightarrow> jit_layout_t" where
  "clear_class l = l\<lparr>l_parts := map (\<lambda>p. p\<lparr>lp_class := calloc_class\<rparr>) (l_parts l)\<rparr>"



section \<open>Hash tables (hash.c)\<close>

text \<open>
  Keys and values of the pointer tables are pointers (\<open>uintptr_t\<close>), \<open>NULL\<close> is 0.
  \<open>mix_bits_64\<close> and \<open>mix_bits_32\<close> are macros of util.h, which is not among the
  sources: every function that hashes takes the mixing function as its first argument
  \<open>mix\<close>, and nothing is assumed of it. The fields \<open>size\<close> and \<open>members\<close> are
  \<open>unsigned\<close>; they are natural numbers here, with the wrap-around at \<open>2 ^ 32\<close> written
  out where the source computes with them.
\<close>

type_synonym ptr = "64 word"

definition NULL :: ptr where
  "NULL = 0"

text \<open>\<open>size - 1\<close> in \<open>unsigned\<close> arithmetic: all ones when the size is 0.\<close>

definition size_minus_1 :: "nat \<Rightarrow> nat" where
  "size_minus_1 sz = (sz + 2 ^ 32 - 1) mod 2 ^ 32"

text \<open>The assertion \<open>key != NULL\<close> of \<open>hash_slot\<close> fails with the result \<open>None\<close>.\<close>

definition hash_slot :: "(64 word \<Rightarrow> 64 word) \<Rightarrow> nat \<Rightarrow> ptr \<Rightarrow> nat option" where
  "hash_slot mix sz key =
     (if key = NULL then None
      else Some (unat (mix key AND word_of_nat (size_minus_1 sz))))"

subsection \<open>Hash table of pointers to pointers\<close>

text \<open>
  \<open>values\<close> and \<open>keys\<close> are the two halves of one block of \<open>size * 2\<close> pointers. The
  product \<open>h->size * 2\<close> passed to \<open>xcalloc\<close> is computed in \<open>unsigned\<close>: when it wraps,
  the block is too small for the table, and the allocation is \<open>None\<close> here, as is every
  access outside an array. A loop that does not end has no result either.
\<close>

record hash =
  h_size :: nat
  h_members :: nat
  h_values :: "ptr list"
  h_keys :: "ptr list"

definition next_power_of_2 :: "32 word \<Rightarrow> 32 word" where
  "next_power_of_2 n0 =
     (let n = n0 - 1;
          n = n OR signed_drop_bit 1 n;
          n = n OR signed_drop_bit 2 n;
          n = n OR signed_drop_bit 4 n;
          n = n OR signed_drop_bit 8 n;
          n = n OR signed_drop_bit 16 n
      in n + 1)"

definition hash_alloc :: "nat \<Rightarrow> (ptr list \<times> ptr list) option" where
  "hash_alloc sz = (if sz * 2 < 2 ^ 32 then Some (replicate sz NULL, replicate sz NULL) else None)"

definition hash_new :: "32 word \<Rightarrow> hash option" where
  "hash_new sz =
     (let n = unat (next_power_of_2 sz) in
      case hash_alloc n of
        None \<Rightarrow> None
      | Some (vals, keys) \<Rightarrow>
          Some \<lparr>h_size = n, h_members = 0, h_values = vals, h_keys = keys\<rparr>)"

text \<open>The probing loop of \<open>hash_put\<close>, from \<open>slot\<close> with increment \<open>i\<close>.\<close>

partial_function (option) hash_put_loop ::
  "hash \<Rightarrow> ptr \<Rightarrow> ptr \<Rightarrow> nat \<Rightarrow> nat \<Rightarrow> (bool \<times> hash) option"
where
  "hash_put_loop h key val slot i =
     (if length (h_keys h) \<le> slot \<or> length (h_values h) \<le> slot then None
      else if h_keys h ! slot = key then
        Some (True, h\<lparr>h_values := (h_values h)[slot := val]\<rparr>)
      else if h_keys h ! slot = NULL then
        Some (False, h\<lparr>h_values := (h_values h)[slot := val],
                       h_keys := (h_keys h)[slot := key],
                       h_members := (h_members h + 1) mod 2 ^ 32\<rparr>)
      else hash_put_loop h key val ((slot + i) AND size_minus_1 (h_size h)) (i + 1))"

declare hash_put_loop.simps [code]

text \<open>
  The loop of the rebuild: \<open>put\<close> is the recursive call, \<open>is\<close> the indices still to
  visit. \<open>old_size\<close> is an \<open>int\<close>, negative when the size does not fit.
\<close>

fun hash_rebuild ::
  "(hash \<Rightarrow> ptr \<Rightarrow> ptr \<Rightarrow> (bool \<times> hash) option) \<Rightarrow> ptr list \<Rightarrow> ptr list \<Rightarrow> nat list
     \<Rightarrow> hash \<Rightarrow> hash option"
where
  "hash_rebuild put old_keys old_values [] h = Some h"
| "hash_rebuild put old_keys old_values (i # is) h =
     (if length old_keys \<le> i \<or> length old_values \<le> i then None
      else if old_keys ! i \<noteq> NULL then
        Option.bind (put h (old_keys ! i) (old_values ! i))
          (\<lambda>r. hash_rebuild put old_keys old_values is (snd r))
      else hash_rebuild put old_keys old_values is h)"

lemma hash_rebuild_mono [partial_function_mono]:
  assumes "\<And>h k v. mono_option (\<lambda>f. F f h k v)"
  shows "mono_option (\<lambda>f. hash_rebuild (F f) old_keys old_values is h)"
proof (induction "is" arbitrary: h)
  case Nil
  show ?case by (simp add: option.const_mono)
next
  case (Cons i "is")
  show ?case
    unfolding hash_rebuild.simps
    by (intro partial_function_mono assms Cons)
qed

definition int_of_unsigned :: "nat \<Rightarrow> int" where
  "int_of_unsigned n = (if n < 2 ^ 31 then int n else int n - 2 ^ 32)"

partial_function (option) hash_put ::
  "(64 word \<Rightarrow> 64 word) \<Rightarrow> hash \<Rightarrow> ptr \<Rightarrow> ptr \<Rightarrow> (bool \<times> hash) option"
where
  "hash_put mix h key val =
     Option.bind
       (if h_members h \<ge> h_size h div 2 then
          (let old_size = int_of_unsigned (h_size h);
               new_size = (h_size h * 2) mod 2 ^ 32;
               old_keys = h_keys h;
               old_values = h_values h
           in Option.bind (hash_alloc new_size)
                (\<lambda>mem. hash_rebuild (hash_put mix) old_keys old_values [0 ..< nat old_size]
                   (h\<lparr>h_size := new_size, h_values := fst mem, h_keys := snd mem,
                      h_members := 0\<rparr>)))
        else Some h)
       (\<lambda>h. Option.bind (hash_slot mix (h_size h) key)
          (\<lambda>slot. hash_put_loop h key val slot 1))"

declare hash_put.simps [code]

partial_function (option) hash_delete_loop :: "hash \<Rightarrow> ptr \<Rightarrow> nat \<Rightarrow> nat \<Rightarrow> hash option"
where
  "hash_delete_loop h key slot i =
     (if length (h_keys h) \<le> slot \<or> length (h_values h) \<le> slot then None
      else if h_keys h ! slot = key then Some (h\<lparr>h_values := (h_values h)[slot := NULL]\<rparr>)
      else if h_keys h ! slot = NULL then Some h
      else hash_delete_loop h key ((slot + i) AND size_minus_1 (h_size h)) (i + 1))"

declare hash_delete_loop.simps [code]

definition hash_delete :: "(64 word \<Rightarrow> 64 word) \<Rightarrow> hash \<Rightarrow> ptr \<Rightarrow> hash option" where
  "hash_delete mix h key =
     Option.bind (hash_slot mix (h_size h) key) (\<lambda>slot. hash_delete_loop h key slot 1)"

partial_function (option) hash_get_loop :: "hash \<Rightarrow> ptr \<Rightarrow> nat \<Rightarrow> nat \<Rightarrow> ptr option"
where
  "hash_get_loop h key slot i =
     (if length (h_keys h) \<le> slot \<or> length (h_values h) \<le> slot then None
      else if h_keys h ! slot = key then Some (h_values h ! slot)
      else if h_keys h ! slot = NULL then Some NULL
      else hash_get_loop h key ((slot + i) AND size_minus_1 (h_size h)) (i + 1))"

declare hash_get_loop.simps [code]

definition hash_get :: "(64 word \<Rightarrow> 64 word) \<Rightarrow> hash \<Rightarrow> ptr \<Rightarrow> ptr option" where
  "hash_get mix h key =
     Option.bind (hash_slot mix (h_size h) key) (\<lambda>slot. hash_get_loop h key slot 1)"

definition HASH_END :: nat where
  "HASH_END = 2 ^ 32 - 1"

text \<open>
  \<open>hash_iter\<close> returns whether it found an entry, the new position, and the entry.
\<close>

function hash_iter_loop :: "hash \<Rightarrow> nat \<Rightarrow> (bool \<times> nat \<times> (ptr \<times> ptr) option) option" where
  "hash_iter_loop h now =
     (if now < h_size h then
        (if length (h_keys h) \<le> now \<or> length (h_values h) \<le> now then None
         else if h_keys h ! now \<noteq> NULL \<and> h_values h ! now \<noteq> NULL then
           Some (True, now + 1, Some (h_keys h ! now, h_values h ! now))
         else hash_iter_loop h (now + 1))
      else Some (False, HASH_END, None))"
  by pat_completeness auto
termination
  by (relation "measure (\<lambda>(h, now). h_size h - now)") auto

declare hash_iter_loop.simps [simp del]

definition hash_iter :: "hash \<Rightarrow> nat \<Rightarrow> (bool \<times> nat \<times> (ptr \<times> ptr) option) option" where
  "hash_iter h now = (if now = HASH_END then None else hash_iter_loop h now)"

definition hash_members :: "hash \<Rightarrow> nat" where
  "hash_members h = h_members h"

subsection \<open>Hash table that supports concurrent updates\<close>

text \<open>
  A slot holds the head of a chain of nodes linked through \<open>chain\<close>; the chain is the
  list of its nodes from the head on. A pointer \<open>p\<close> to a link of the chain is the number
  of nodes before that link, and the link is \<open>NULL\<close> exactly when it is the last one.

  Other threads run \<open>chash_put\<close> on the same table at the same time. All that such a call
  writes to the table is a value, stored in the node of its key, or a new node, linked
  by a successful compare-and-swap behind the last node of a chain: no node is ever
  unlinked and no key is ever changed. \<open>other_put\<close> is that write, taken at the moment
  it happens, and a \<open>chash_env\<close> says which writes of other threads happen at each
  instant: \<open>env t\<close> are the puts that take effect at instant \<open>t\<close>, in order. The quiet
  environment, in which the thread is alone, has no puts at any instant.
\<close>

record chash_node =
  node_key :: ptr
  node_value :: ptr

record chash =
  c_size :: nat
  c_members :: nat
  c_slots :: "chash_node list list"

type_synonym chash_env = "nat \<Rightarrow> (ptr \<times> ptr) list"

text \<open>The inner loop of \<open>chash_put\<close>: the node with the key, or else the final link.\<close>

fun chash_walk :: "chash_node list \<Rightarrow> ptr \<Rightarrow> nat \<Rightarrow> nat + nat" where
  "chash_walk [] key p = Inr p"
| "chash_walk (it # chain) key p =
     (if node_key it = key then Inl p else chash_walk chain key (Suc p))"

text \<open>
  \<open>atomic_cas(p, NULL, new)\<close>: the link \<open>p\<close> is still \<open>NULL\<close> when no node has been
  linked behind it, that is when the chain still has \<open>p\<close> nodes.
\<close>

definition atomic_cas :: "chash_node list \<Rightarrow> nat \<Rightarrow> chash_node \<Rightarrow> bool \<times> chash_node list" where
  "atomic_cas chain p new =
     (if length chain = p then (True, chain @ [new]) else (False, chain))"

definition store_value :: "chash_node list \<Rightarrow> nat \<Rightarrow> ptr \<Rightarrow> chash_node list" where
  "store_value chain p val = chain[p := (chain ! p)\<lparr>node_value := val\<rparr>]"

definition chain_put :: "chash_node list \<Rightarrow> ptr \<Rightarrow> ptr \<Rightarrow> chash_node list" where
  "chain_put chain key val =
     (case chash_walk chain key 0 of
        Inl p \<Rightarrow> store_value chain p val
      | Inr p \<Rightarrow> chain @ [\<lparr>node_key = key, node_value = val\<rparr>])"

definition other_put :: "(64 word \<Rightarrow> 64 word) \<Rightarrow> ptr \<times> ptr \<Rightarrow> chash \<Rightarrow> chash" where
  "other_put mix kv h =
     (case hash_slot mix (c_size h) (fst kv) of
        None \<Rightarrow> h
      | Some slot \<Rightarrow>
          if length (c_slots h) \<le> slot then h
          else h\<lparr>c_slots := (c_slots h)[slot := chain_put (c_slots h ! slot) (fst kv) (snd kv)]\<rparr>)"

definition interfere :: "(64 word \<Rightarrow> 64 word) \<Rightarrow> (ptr \<times> ptr) list \<Rightarrow> chash \<Rightarrow> chash" where
  "interfere mix kvs h = fold (other_put mix) kvs h"

text \<open>
  The outer loop of \<open>chash_put\<close>, started at instant \<open>t\<close>. The walk down the chain is one
  step, taken when it reads its last link: the nodes it has passed are still there, with
  the same keys, and a node linked behind them before that moment is seen. Other
  threads write before the walk (\<open>env t\<close>) and between the walk and the store or the
  compare-and-swap (\<open>env (t + 1)\<close>). The loop goes round again when the
  compare-and-swap fails, and it need not end. The result is whether the key was found,
  the number of calls of \<open>atomic_cas\<close>, and the table as the last write of the call
  leaves it.
\<close>

partial_function (option) chash_put_loop ::
  "(64 word \<Rightarrow> 64 word) \<Rightarrow> chash_env \<Rightarrow> nat \<Rightarrow> nat \<Rightarrow> chash \<Rightarrow> nat \<Rightarrow> ptr \<Rightarrow> ptr
     \<Rightarrow> (bool \<times> nat \<times> chash) option"
where
  "chash_put_loop mix env t ncas h slot key val =
     (let h1 = interfere mix (env t) h in
      if length (c_slots h1) \<le> slot then None
      else
        (case chash_walk (c_slots h1 ! slot) key 0 of
           Inl p \<Rightarrow>
             (let h2 = interfere mix (env (t + 1)) h1 in
              Some (True, ncas,
                h2\<lparr>c_slots := (c_slots h2)[slot := store_value (c_slots h2 ! slot) p val]\<rparr>))
         | Inr p \<Rightarrow>
             (let h2 = interfere mix (env (t + 1)) h1 in
              case atomic_cas (c_slots h2 ! slot) p \<lparr>node_key = key, node_value = val\<rparr> of
                (ok, chain) \<Rightarrow>
                  if ok then Some (False, Suc ncas, h2\<lparr>c_slots := (c_slots h2)[slot := chain]\<rparr>)
                  else chash_put_loop mix env (t + 2) (Suc ncas) h2 slot key val)))"

declare chash_put_loop.simps [code]

definition chash_put ::
  "(64 word \<Rightarrow> 64 word) \<Rightarrow> chash_env \<Rightarrow> chash \<Rightarrow> ptr \<Rightarrow> ptr \<Rightarrow> (bool \<times> nat \<times> chash) option"
where
  "chash_put mix env h key val =
     (case hash_slot mix (c_size h) key of
        None \<Rightarrow> None
      | Some slot \<Rightarrow> chash_put_loop mix env 0 0 h slot key val)"

fun chash_find :: "chash_node list \<Rightarrow> ptr \<Rightarrow> ptr" where
  "chash_find [] key = NULL"
| "chash_find (it # chain) key = (if node_key it = key then node_value it else chash_find chain key)"

definition chash_get :: "(64 word \<Rightarrow> 64 word) \<Rightarrow> chash \<Rightarrow> ptr \<Rightarrow> ptr option" where
  "chash_get mix h key =
     (case hash_slot mix (c_size h) key of
        None \<Rightarrow> None
      | Some slot \<Rightarrow>
          if length (c_slots h) \<le> slot then None else Some (chash_find (c_slots h ! slot) key))"

definition chash_one :: chash where
  "chash_one = \<lparr>c_size = 2, c_members = 0,
     c_slots = [[\<lparr>node_key = 2, node_value = 10\<rparr>], []]\<rparr>"

definition env_quiet :: chash_env where
  "env_quiet t = []"

text \<open>Another thread puts key 6, of the same slot as keys 2 and 4, at instant 1.\<close>

definition env_race :: chash_env where
  "env_race t = (if t = 1 then [(6, 60)] else [])"

text \<open>What any number of writes of other threads keep: the table only grows, at the ends of its chains.\<close>

definition chash_grows :: "chash \<Rightarrow> chash \<Rightarrow> bool" where
  "chash_grows h h' =
     (c_size h' = c_size h \<and> c_members h' = c_members h
      \<and> length (c_slots h') = length (c_slots h)
      \<and> (\<forall>s<length (c_slots h).
            prefix (map node_key (c_slots h ! s)) (map node_key (c_slots h' ! s))))"

text \<open>The result of the loop, relative to the table it starts from.\<close>

definition chash_put_post ::
  "nat \<Rightarrow> chash \<Rightarrow> nat \<Rightarrow> ptr \<Rightarrow> ptr \<Rightarrow> bool \<times> nat \<times> chash \<Rightarrow> bool" where
  "chash_put_post ncas h slot key val r =
     (case r of (found, ncas', h') \<Rightarrow>
        chash_grows h h' \<and> ncas \<le> ncas'
        \<and> length (c_slots h ! slot) + (ncas' - ncas) \<le> length (c_slots h' ! slot)
        \<and> (found \<longrightarrow> key \<in> node_key ` set (c_slots h' ! slot))
        \<and> (\<not> found \<longrightarrow> ncas < ncas' \<and> c_slots h' ! slot \<noteq> []
              \<and> last (c_slots h' ! slot) = \<lparr>node_key = key, node_value = val\<rparr>
              \<and> key \<notin> node_key ` set (butlast (c_slots h' ! slot)))
        \<and> chash_find (c_slots h' ! slot) key = val)"

subsection \<open>Open addressing\<close>

text \<open>
  The three open-addressing tables are read as a list of cells, one per slot: empty, or
  a key with its value. \<open>q\<close> is the probe sequence of a key, \<open>q j\<close> the slot of the
  \<open>j\<close>-th probe. A probe stops at the first slot that is empty or holds the key; the
  invariant says that every key in the table is where its own probe stops.
\<close>

definition oa_stop :: "('k \<times> 'v) option list \<Rightarrow> (nat \<Rightarrow> nat) \<Rightarrow> 'k \<Rightarrow> nat \<Rightarrow> bool" where
  "oa_stop cs q k j =
     ((cs ! q j = None \<or> (\<exists>v. cs ! q j = Some (k, v))) \<and>
      (\<forall>j'<j. \<exists>k' v'. cs ! q j' = Some (k', v') \<and> k' \<noteq> k))"

definition oa_inv :: "('k \<times> 'v) option list \<Rightarrow> ('k \<Rightarrow> nat \<Rightarrow> nat) \<Rightarrow> bool" where
  "oa_inv cs p =
     ((\<forall>k j. p k j < length cs) \<and>
      (\<forall>k. \<forall>i<length cs. \<exists>j. p k j = i) \<and>
      (\<forall>i<length cs. \<forall>k v. cs ! i = Some (k, v) \<longrightarrow> (\<exists>j. p k j = i \<and> oa_stop cs (p k) k j)))"

definition oa_entries :: "('k \<times> 'v) option list \<Rightarrow> ('k \<times> 'v) set" where
  "oa_entries cs = {(k, v). \<exists>i<length cs. cs ! i = Some (k, v)}"

definition oa_count :: "('k \<times> 'v) option list \<Rightarrow> nat" where
  "oa_count cs = length (filter (\<lambda>c. c \<noteq> None) cs)"

fun quad_pos :: "nat \<Rightarrow> nat \<Rightarrow> nat \<Rightarrow> nat" where
  "quad_pos n s 0 = s"
| "quad_pos n s (Suc j) = (quad_pos n s j + Suc j) mod n"

fun lin_pos :: "nat \<Rightarrow> nat \<Rightarrow> nat \<Rightarrow> nat" where
  "lin_pos n s 0 = s"
| "lin_pos n s (Suc j) = (lin_pos n s j + 1) mod n"

definition triangle :: "nat \<Rightarrow> nat" where
  "triangle j = j * (j + 1) div 2"

subsection \<open>The pointer table as cells\<close>

text \<open>
  A slot of the pointer table is empty when its key is \<open>NULL\<close>. \<open>hash_grow\<close> is the
  body of the \<open>if\<close> at the head of \<open>hash_put\<close>: the rebuild with twice the size.
  \<open>hash_reach\<close> are the tables a program can have: made by \<open>hash_new\<close> with a capacity
  that is a power of two, then changed by \<open>hash_put\<close> and \<open>hash_delete\<close> only.
\<close>

definition hcells :: "hash \<Rightarrow> (ptr \<times> ptr) option list" where
  "hcells h = map (\<lambda>(k, v). if k = NULL then None else Some (k, v)) (zip (h_keys h) (h_values h))"

definition hpos :: "(64 word \<Rightarrow> 64 word) \<Rightarrow> nat \<Rightarrow> ptr \<Rightarrow> nat \<Rightarrow> nat" where
  "hpos mix n k j = quad_pos n (unat (mix k) mod n) j"

definition hash_inv :: "(64 word \<Rightarrow> 64 word) \<Rightarrow> hash \<Rightarrow> bool" where
  "hash_inv mix h =
     ((\<exists>m\<le>30. h_size h = 2 ^ m) \<and> length (h_keys h) = h_size h
      \<and> length (h_values h) = h_size h \<and> h_members h = oa_count (hcells h)
      \<and> h_members h \<le> h_size h div 2 \<and> oa_inv (hcells h) (hpos mix (h_size h)))"

definition hash_wf :: "(64 word \<Rightarrow> 64 word) \<Rightarrow> hash \<Rightarrow> nat \<Rightarrow> bool" where
  "hash_wf mix h m =
     (h_size h = 2 ^ m \<and> length (h_keys h) = 2 ^ m \<and> length (h_values h) = 2 ^ m
      \<and> h_members h = oa_count (hcells h) \<and> oa_inv (hcells h) (hpos mix (2 ^ m)))"

definition hash_grow :: "(64 word \<Rightarrow> 64 word) \<Rightarrow> hash \<Rightarrow> hash option" where
  "hash_grow mix h =
     (let old_size = int_of_unsigned (h_size h);
          new_size = (h_size h * 2) mod 2 ^ 32;
          old_keys = h_keys h;
          old_values = h_values h
      in Option.bind (hash_alloc new_size)
           (\<lambda>mem. hash_rebuild (hash_put mix) old_keys old_values [0 ..< nat old_size]
              (h\<lparr>h_size := new_size, h_values := fst mem, h_keys := snd mem,
                 h_members := 0\<rparr>)))"

definition hash_example :: hash where
  "hash_example = \<lparr>h_size = 4, h_members = 1, h_values = [0, 7, 0, 0], h_keys = [0, 5, 0, 0]\<rparr>"

inductive hash_reach :: "(64 word \<Rightarrow> 64 word) \<Rightarrow> hash \<Rightarrow> bool" for mix where
  new: "hash_new sz = Some h \<Longrightarrow> h_size h = 2 ^ m \<Longrightarrow> hash_reach mix h"
| put: "hash_reach mix h \<Longrightarrow> hash_put mix h key val = Some (found, h') \<Longrightarrow> hash_reach mix h'"
| delete: "hash_reach mix h \<Longrightarrow> hash_delete mix h key = Some h' \<Longrightarrow> hash_reach mix h'"

section \<open>Diagnostics (util.c)\<close>

text \<open>
  The diagnostic collector is the static state of util.c: the installed error callback,
  the option list, the chain of queued hints (most recent first), the error count, and
  the static flag \<open>inside\<close> of \<open>show_hint\<close>. Messages are taken as already formatted.
  What the callbacks and the print functions do is outside util.c's state; each call is
  recorded in \<open>trace\<close>, and a user callback is taken not to call back into the
  collector. \<open>None\<close> is a process that terminated (\<open>fatal_trace\<close>) or crashed.
\<close>

type_synonym loc = nat

definition LOC_INVALID :: loc where
  "LOC_INVALID = 0"

datatype optval = OPTION_INT int | OPTION_STRING "string option"

datatype error_fn_t = Def_error_fn | User_error_fn nat

datatype print_fn_t = Errorf | Warnf | Notef | Fatalf

text \<open>
  A hint made by \<open>hint_at\<close> has \<open>default_hint_fn\<close> as its function, itself as the context,
  and carries its text and location; one made by \<open>set_hint_fn\<close> has a user function and
  context.
\<close>

datatype hint = is_default: Default_hint string loc | User_hint nat nat

datatype diag_event =
  Error_fn_call error_fn_t string loc
  | Print_call print_fn_t string loc
  | Hint_fn_call nat nat

record diag =
  error_fn :: error_fn_t
  options :: "(ident \<times> optval) list"
  hints :: "hint list"
  n_errors :: "32 word"
  inside :: bool
  trace :: "diag_event list"

definition opt_get_int :: "ident \<Rightarrow> diag \<Rightarrow> int option" where
  "opt_get_int name s =
     (case map_of (options s) name of
        Some (OPTION_INT i) \<Rightarrow> Some i
      | _ \<Rightarrow> None)"

definition call_error_fn :: "string \<Rightarrow> loc option \<Rightarrow> diag \<Rightarrow> diag" where
  "call_error_fn strp loc s =
     s\<lparr>trace := trace s @
        [Error_fn_call (error_fn s) strp (case loc of None \<Rightarrow> LOC_INVALID | Some l \<Rightarrow> l)]\<rparr>"

definition msg_at :: "print_fn_t \<Rightarrow> loc \<Rightarrow> string \<Rightarrow> diag \<Rightarrow> diag" where
  "msg_at fn loc strp s = s\<lparr>trace := trace s @ [Print_call fn strp loc]\<rparr>"

definition catch_in_unit_test :: "print_fn_t \<Rightarrow> loc \<Rightarrow> string \<Rightarrow> diag \<Rightarrow> diag option" where
  "catch_in_unit_test fn loc strp s =
     (case opt_get_int ''unit-test'' s of
        None \<Rightarrow> None
      | Some u \<Rightarrow> Some (if u \<noteq> 0 then call_error_fn strp (Some loc) s else msg_at fn loc strp s))"

definition pop_hint :: "diag \<Rightarrow> diag option" where
  "pop_hint s = (case hints s of [] \<Rightarrow> None | h # tmp \<Rightarrow> Some (s\<lparr>hints := tmp\<rparr>))"

definition hint_at :: "loc \<Rightarrow> string \<Rightarrow> diag \<Rightarrow> diag" where
  "hint_at loc strp s = s\<lparr>hints := Default_hint strp loc # hints s\<rparr>"

definition set_hint_fn :: "nat \<Rightarrow> nat \<Rightarrow> diag \<Rightarrow> diag" where
  "set_hint_fn fn ctx s = s\<lparr>hints := User_hint fn ctx # hints s\<rparr>"

definition error_count :: "diag \<Rightarrow> 32 word" where
  "error_count s = n_errors s"

text \<open>
  \<open>show_hint\<close> runs the hint functions, \<open>default_hint_fn\<close> calls \<open>note_at\<close>, and \<open>note_at\<close>
  calls \<open>show_hint\<close> again: the functions are one recursive definition, selected by the
  call. \<open>Hint_loop\<close> is the \<open>while\<close> loop of \<open>show_hint\<close>.
\<close>

datatype diag_call =
  Show_hint
  | Hint_loop
  | Hint_func hint
  | Note_at loc string
  | Error_at "loc option" string

partial_function (option) diag_exec :: "diag_call \<Rightarrow> diag \<Rightarrow> diag option" where
  "diag_exec c s =
     (case c of
        Show_hint \<Rightarrow>
          if inside s then Some s
          else Option.bind (diag_exec Hint_loop (s\<lparr>inside := True\<rparr>))
                 (\<lambda>s. Some (s\<lparr>inside := False\<rparr>))
      | Hint_loop \<Rightarrow>
          (case hints s of
             [] \<Rightarrow> Some s
           | h # _ \<Rightarrow>
               Option.bind (diag_exec (Hint_func h) s)
                 (\<lambda>s. Option.bind (pop_hint s) (diag_exec Hint_loop)))
      | Hint_func h \<Rightarrow>
          (case h of
             Default_hint str loc \<Rightarrow> diag_exec (Note_at loc str) s
           | User_hint fn ctx \<Rightarrow> Some (s\<lparr>trace := trace s @ [Hint_fn_call fn ctx]\<rparr>))
      | Note_at loc strp \<Rightarrow>
          Option.bind (catch_in_unit_test Notef loc strp s)
            (\<lambda>s. Option.bind (diag_exec Show_hint s)
               (\<lambda>s. case opt_get_int ''unit-test'' s of
                       None \<Rightarrow> None
                     | Some u \<Rightarrow> Some (if u \<noteq> 0 then s\<lparr>n_errors := n_errors s + 1\<rparr> else s)))
      | Error_at loc strp \<Rightarrow>
          Option.bind (diag_exec Show_hint (call_error_fn strp loc s))
            (\<lambda>s. Some (s\<lparr>n_errors := n_errors s + 1\<rparr>)))"

declare diag_exec.simps [code]

definition show_hint :: "diag \<Rightarrow> diag option" where
  "show_hint = diag_exec Show_hint"

definition note_at :: "loc \<Rightarrow> string \<Rightarrow> diag \<Rightarrow> diag option" where
  "note_at loc strp = diag_exec (Note_at loc strp)"

definition error_at :: "loc option \<Rightarrow> string \<Rightarrow> diag \<Rightarrow> diag option" where
  "error_at loc strp = diag_exec (Error_at loc strp)"

definition diag_test :: diag where
  "diag_test = \<lparr>error_fn = User_error_fn 1, options = [(''unit-test'', OPTION_INT 1)],
     hints = [Default_hint ''while analysing'' 7], n_errors = 0, inside = False, trace = []\<rparr>"

definition diag_plain :: diag where
  "diag_plain = \<lparr>error_fn = User_error_fn 1, options = [(''unit-test'', OPTION_INT 0)],
     hints = [Default_hint ''while analysing'' 7, User_hint 2 0], n_errors = 4,
     inside = False, trace = []\<rparr>"

section \<open>VCD waveform dump (rt/vcd.c)\<close>











section \<open>Verilog simplification (vlog/vlog-simp.c)\<close>


datatype vlog_net_kind_t = V_NET_WIRE | V_NET_SUPPLY0 | V_NET_SUPPLY1 | V_NET_OTHER nat

datatype vlog_gate_kind_t = V_GATE_PULLDOWN | V_GATE_PULLUP | V_GATE_OTHER nat

datatype vlog_strength_t = ST_SUPPLY | ST_OTHER nat


















subsection \<open>Well-formed stores and the states reached\<close>












section \<open>Size and alignment of layouts\<close>
















section \<open>Strict and liberal type equality\<close>

text \<open>
  C2 says that \<open>type_strict_eq a b\<close> implies \<open>type_eq a b\<close>. The code does not: for two
  distinct subtype objects \<open>type_strict_eq\<close> compares the kinds and the identifiers and
  nothing else (a subtype has neither element, dimensions nor parameters), while
  \<open>type_eq\<close> first walks both to their base types. The anonymous subtypes
  \<open>integer range ...\<close> and \<open>real range ...\<close> are strictly equal and not equal.
\<close>

theorem type_strict_eq_not_type_eq:
  "type_strict_eq t_sub_integer t_sub_real = Some True
   \<and> type_eq t_sub_integer t_sub_real = Some False"
  by (simp add: type_strict_eq.simps type_eq.simps t_sub_integer_def t_sub_real_def
      type_has_ident_def lookup_item_def type_base_recur.simps type_base_def t_integer_def
      t_real_def)

section \<open>Implicit conversion\<close>

text \<open>
  C3, as stated, fails: \<open>type_is_convertible\<close> answers true for every source type whose
  base kind is \<open>T_NONE\<close> (the type given to erroneous expressions), which is not a
  universal type.
\<close>

theorem type_is_convertible_none:
  "type_is_convertible t_none t_integer = Some True \<and> type_is_universal t_none = Some False"
  by (simp add: type_is_convertible_def type_is_universal_def lookup_item_def
      type_base_kind.simps t_none_def t_integer_def)

text \<open>
  C3, amended: \<open>type_is_convertible from to\<close> returns true exactly when the base kind of
  \<open>from\<close> is \<open>T_NONE\<close>, or \<open>from\<close> is a universal integer or real type, \<open>to\<close> is not
  universal and both have the same base kind (integer and integer, or real and real);
  for every other pair of types it returns false. (The base kinds exist for every type
  whose subtype chain ends in a type that is not a subtype.)
\<close>

theorem type_is_convertible_iff:
  assumes "type_base_kind from = Some fromk" and "type_base_kind to = Some tok"
  shows "type_is_convertible from to =
     Some (fromk = T_NONE \<or>
       (type_is_universal from = Some True \<and> type_is_universal to \<noteq> Some True \<and>
        (fromk = T_INTEGER \<and> tok = T_INTEGER \<or> fromk = T_REAL \<and> tok = T_REAL)))"
  using assms by (simp add: type_is_convertible_def)

theorem type_is_convertible_iff_witness:
  "type_base_kind t_universal_int = Some T_INTEGER \<and> type_base_kind t_integer = Some T_INTEGER
   \<and> type_is_convertible t_universal_int t_integer = Some True
   \<and> type_is_convertible t_integer t_universal_int = Some False"
proof -
  have u: "type_base_kind t_universal_int = Some T_INTEGER"
    by (simp add: type_base_kind.simps t_universal_int_def)
  have i: "type_base_kind t_integer = Some T_INTEGER"
    by (simp add: type_base_kind.simps t_integer_def)
  have uu: "type_is_universal t_universal_int = Some True"
    by (simp add: type_is_universal_def lookup_item_def t_universal_int_def
        type_universal_int_ident_def)
  have iu: "type_is_universal t_integer = Some False"
    by (simp add: type_is_universal_def lookup_item_def t_integer_def
        type_universal_int_ident_def)
  show ?thesis
    using type_is_convertible_iff [OF u i] type_is_convertible_iff [OF i u] u i uu iu
    by simp
qed

section \<open>The two copies of layout_of\<close>


lemma clear_class_size [simp]:
  "l_size (clear_class l) = l_size l" "l_align (clear_class l) = l_align l"
  by (simp_all add: clear_class_def)












section \<open>The concurrent map inserts at the tail\<close>

lemma chash_walk_Inr:
  "chash_walk chain key p = Inr q \<Longrightarrow> q = p + length chain \<and> key \<notin> node_key ` set chain"
proof (induction chain arbitrary: p)
  case Nil
  then show ?case by simp
next
  case (Cons it chain)
  then have "node_key it \<noteq> key" and "chash_walk chain key (Suc p) = Inr q"
    by (auto split: if_splits)
  with Cons.IH [of "Suc p"] show ?case by simp
qed

lemma chash_walk_Inl:
  "chash_walk chain key p = Inl q \<Longrightarrow>
     p \<le> q \<and> q - p < length chain \<and> node_key (chain ! (q - p)) = key
     \<and> key \<notin> node_key ` set (take (q - p) chain)"
proof (induction chain arbitrary: p)
  case Nil
  then show ?case by simp
next
  case (Cons it chain)
  show ?case
  proof (cases "node_key it = key")
    case True
    with Cons.prems show ?thesis by simp
  next
    case False
    with Cons.prems have w: "chash_walk chain key (Suc p) = Inl q" by simp
    from Cons.IH [OF w] have *: "Suc p \<le> q" "q - Suc p < length chain"
      "node_key (chain ! (q - Suc p)) = key"
      "key \<notin> node_key ` set (take (q - Suc p) chain)" by auto
    then have "q - p = Suc (q - Suc p)" by simp
    with * False show ?thesis by auto
  qed
qed

lemma chash_find_append_new:
  "key \<notin> node_key ` set chain \<Longrightarrow>
     chash_find (chain @ [\<lparr>node_key = key, node_value = val\<rparr>]) key = val"
  by (induction chain) auto

lemma chash_find_update:
  "p < length chain \<Longrightarrow> node_key (chain ! p) = key \<Longrightarrow> key \<notin> node_key ` set (take p chain)
   \<Longrightarrow> chash_find (store_value chain p val) key = val"
  unfolding store_value_def
proof (induction chain arbitrary: p)
  case Nil
  then show ?case by simp
next
  case (Cons it chain)
  then show ?case by (cases p) auto
qed

lemma store_value_keys: "map node_key (store_value chain p val) = map node_key chain"
proof (cases "p < length chain")
  case True
  then show ?thesis by (simp add: store_value_def map_update list_update_same_conv)
next
  case False
  then show ?thesis by (simp add: store_value_def list_update_beyond)
qed

lemma store_value_length: "length (store_value chain p val) = length chain"
  by (simp add: store_value_def)

lemma chain_put_keys:
  "prefix (map node_key chain) (map node_key (chain_put chain key val))"
  by (cases "chash_walk chain key 0") (simp_all add: chain_put_def store_value_keys)

lemma chash_grows_refl: "chash_grows h h"
  by (simp add: chash_grows_def)

lemma chash_grows_trans: "chash_grows h h1 \<Longrightarrow> chash_grows h1 h2 \<Longrightarrow> chash_grows h h2"
  unfolding chash_grows_def by (auto intro: prefix_order.trans)

lemma chash_grows_slot:
  assumes "s < length (c_slots h)"
    and "prefix (map node_key (c_slots h ! s)) (map node_key chain)"
  shows "chash_grows h (h\<lparr>c_slots := (c_slots h)[s := chain]\<rparr>)"
  using assms by (auto simp: chash_grows_def nth_list_update)

lemma other_put_grows: "chash_grows h (other_put mix kv h)"
proof (cases "hash_slot mix (c_size h) (fst kv)")
  case None
  then show ?thesis by (simp add: other_put_def chash_grows_refl)
next
  case (Some slot)
  show ?thesis
  proof (cases "length (c_slots h) \<le> slot")
    case True
    with Some show ?thesis by (simp add: other_put_def chash_grows_refl)
  next
    case False
    then have "slot < length (c_slots h)" by simp
    from chash_grows_slot [OF this chain_put_keys] Some False show ?thesis
      by (simp add: other_put_def)
  qed
qed

lemma interfere_grows: "chash_grows h (interfere mix kvs h)"
  unfolding interfere_def
proof (induction kvs arbitrary: h)
  case Nil
  show ?case by (simp add: chash_grows_refl)
next
  case (Cons kv kvs)
  from chash_grows_trans [OF other_put_grows Cons] show ?case by simp
qed

lemma interfere_Nil: "interfere mix [] h = h"
  by (simp add: interfere_def)

lemma prefix_keys_nth:
  assumes "prefix (map node_key c1) (map node_key c2)" and "p < length c1"
  shows "p < length c2" and "node_key (c2 ! p) = node_key (c1 ! p)"
    and "node_key ` set (take p c2) = node_key ` set (take p c1)"
proof -
  from assms(1) obtain zs where zs: "map node_key c2 = map node_key c1 @ zs"
    by (auto simp: prefix_def)
  then have "length c2 = length c1 + length zs" by (metis length_append length_map)
  with assms(2) show lt: "p < length c2" by simp
  from zs assms(2) have "map node_key c2 ! p = map node_key c1 ! p" by (simp add: nth_append)
  with lt assms(2) show "node_key (c2 ! p) = node_key (c1 ! p)" by simp
  from zs assms(2) have "take p (map node_key c2) = take p (map node_key c1)" by simp
  then have "map node_key (take p c2) = map node_key (take p c1)" by (simp add: take_map)
  then have "set (map node_key (take p c2)) = set (map node_key (take p c1))" by simp
  then show "node_key ` set (take p c2) = node_key ` set (take p c1)" by simp
qed

lemma prefix_keys_length:
  "prefix (map node_key c1) (map node_key c2) \<Longrightarrow> length c1 \<le> length c2"
  by (metis length_map prefix_length_le)

lemma prefix_keys_same_length:
  assumes "prefix (map node_key c1) (map node_key c2)" and "length c2 = length c1"
  shows "map node_key c2 = map node_key c1"
proof -
  from assms(1) obtain zs where zs: "map node_key c2 = map node_key c1 @ zs"
    by (auto simp: prefix_def)
  then have "length c2 = length c1 + length zs" by (metis length_append length_map)
  with assms(2) zs show ?thesis by simp
qed

lemma chash_put_loop_post:
  assumes "chash_put_loop mix env t ncas h slot key val = Some r"
  shows "slot < length (c_slots h) \<longrightarrow> chash_put_post ncas h slot key val r"
proof (rule chash_put_loop.raw_induct [where P = "\<lambda>mix env t ncas h slot key val r.
    slot < length (c_slots h) \<longrightarrow> chash_put_post ncas h slot key val r", OF _ assms])
  fix loop :: "(64 word \<Rightarrow> 64 word) \<Rightarrow> chash_env \<Rightarrow> nat \<Rightarrow> nat \<Rightarrow> chash \<Rightarrow> nat \<Rightarrow> ptr \<Rightarrow> ptr
     \<Rightarrow> (bool \<times> nat \<times> chash) option"
  fix mix env t ncas h slot key val r
  assume IH: "\<And>mix env t ncas h slot key val r.
    loop mix env t ncas h slot key val = Some r \<Longrightarrow>
      slot < length (c_slots h) \<longrightarrow> chash_put_post ncas h slot key val r"
  assume body0: "(let h1 = interfere mix (env t) h in
      if length (c_slots h1) \<le> slot then None
      else
        (case chash_walk (c_slots h1 ! slot) key 0 of
           Inl p \<Rightarrow>
             (let h2 = interfere mix (env (t + 1)) h1 in
              Some (True, ncas,
                h2\<lparr>c_slots := (c_slots h2)[slot := store_value (c_slots h2 ! slot) p val]\<rparr>))
         | Inr p \<Rightarrow>
             (let h2 = interfere mix (env (t + 1)) h1 in
              case atomic_cas (c_slots h2 ! slot) p \<lparr>node_key = key, node_value = val\<rparr> of
                (ok, chain) \<Rightarrow>
                  if ok then Some (False, Suc ncas, h2\<lparr>c_slots := (c_slots h2)[slot := chain]\<rparr>)
                  else loop mix env (t + 2) (Suc ncas) h2 slot key val))) = Some r"
  show "slot < length (c_slots h) \<longrightarrow> chash_put_post ncas h slot key val r"
  proof
  assume inr: "slot < length (c_slots h)"
  define h1 where "h1 = interfere mix (env t) h"
  define h2 where "h2 = interfere mix (env (t + 1)) h1"
  define c where "c = c_slots h ! slot"
  define c1 where "c1 = c_slots h1 ! slot"
  define c2 where "c2 = c_slots h2 ! slot"
  from body0 have body:
    "(if length (c_slots h1) \<le> slot then None
      else
        (case chash_walk c1 key 0 of
           Inl p \<Rightarrow>
             Some (True, ncas, h2\<lparr>c_slots := (c_slots h2)[slot := store_value c2 p val]\<rparr>)
         | Inr p \<Rightarrow>
             (case atomic_cas c2 p \<lparr>node_key = key, node_value = val\<rparr> of
                (ok, chain) \<Rightarrow>
                  if ok then Some (False, Suc ncas, h2\<lparr>c_slots := (c_slots h2)[slot := chain]\<rparr>)
                  else loop mix env (t + 2) (Suc ncas) h2 slot key val))) = Some r"
    unfolding Let_def h1_def h2_def c1_def c2_def .
  have g1: "chash_grows h h1" unfolding h1_def by (rule interfere_grows)
  have g2: "chash_grows h1 h2" unfolding h2_def by (rule interfere_grows)
  from g1 g2 have g: "chash_grows h h2" by (rule chash_grows_trans)
  from inr g1 g2 have s1: "slot < length (c_slots h1)" and s2: "slot < length (c_slots h2)"
    by (simp_all add: chash_grows_def)
  from inr g1 have p1: "prefix (map node_key c) (map node_key c1)"
    by (simp add: chash_grows_def c_def c1_def)
  from s1 g2 have p2: "prefix (map node_key c1) (map node_key c2)"
    by (simp add: chash_grows_def c1_def c2_def)
  from p1 p2 have len: "length c \<le> length c1" "length c1 \<le> length c2"
    by (auto dest: prefix_keys_length)
  show "chash_put_post ncas h slot key val r"
  proof (cases "chash_walk c1 key 0")
    case (Inl p)
    from chash_walk_Inl [OF Inl] have p: "p < length c1" "node_key (c1 ! p) = key"
      "key \<notin> node_key ` set (take p c1)" by auto
    note q = prefix_keys_nth [OF p2 p(1)]
    define h' where "h' = h2\<lparr>c_slots := (c_slots h2)[slot := store_value c2 p val]\<rparr>"
    from body s1 Inl have r: "r = (True, ncas, h')"
      by (simp add: h'_def)
    have "chash_grows h2 h'"
      unfolding h'_def using s2
      by (intro chash_grows_slot) (simp_all add: store_value_keys c2_def)
    with g have g': "chash_grows h h'" by (rule chash_grows_trans)
    from s2 have c': "c_slots h' ! slot = store_value c2 p val" by (simp add: h'_def)
    from q(1) have "node_key (store_value c2 p val ! p) = key"
      using q(2) p(2) by (simp add: store_value_def)
    with q(1) have mem: "key \<in> node_key ` set (store_value c2 p val)"
      by (metis image_eqI nth_mem store_value_length)
    from q p have "chash_find (store_value c2 p val) key = val"
      by (intro chash_find_update) simp_all
    with g' mem len show ?thesis
      by (simp add: chash_put_post_def r c' store_value_length c_def)
  next
    case (Inr p)
    from chash_walk_Inr [OF Inr] have p: "p = length c1" "key \<notin> node_key ` set c1" by auto
    let ?new = "\<lparr>node_key = key, node_value = val\<rparr>"
    show ?thesis
    proof (cases "length c2 = p")
      case True
      define h' where "h' = h2\<lparr>c_slots := (c_slots h2)[slot := c2 @ [?new]]\<rparr>"
      from body s1 Inr True have r: "r = (False, Suc ncas, h')"
        by (simp add: h'_def atomic_cas_def)
      have "chash_grows h2 h'"
        unfolding h'_def using s2
        by (intro chash_grows_slot) (simp_all add: c2_def)
      with g have g': "chash_grows h h'" by (rule chash_grows_trans)
      from s2 have c': "c_slots h' ! slot = c2 @ [?new]" by (simp add: h'_def)
      from prefix_keys_same_length [OF p2] True p(1) have "map node_key c2 = map node_key c1"
        by simp
      then have "set (map node_key c2) = set (map node_key c1)" by simp
      with p(2) have fresh: "key \<notin> node_key ` set c2" by simp
      then have "chash_find (c2 @ [?new]) key = val" by (rule chash_find_append_new)
      with g' fresh len show ?thesis
        by (simp add: chash_put_post_def r c' c_def)
    next
      case False
      with len p(1) have lt: "length c1 < length c2" by simp
      from body s1 Inr False have "loop mix env (t + 2) (Suc ncas) h2 slot key val = Some r"
        by (simp add: atomic_cas_def)
      from IH [OF this] s2 have post: "chash_put_post (Suc ncas) h2 slot key val r" by simp
      obtain found ncas' h' where r: "r = (found, ncas', h')" by (cases r)
      from post have g': "chash_grows h2 h'" and n: "Suc ncas \<le> ncas'"
        and l: "length c2 + (ncas' - Suc ncas) \<le> length (c_slots h' ! slot)"
        by (auto simp: chash_put_post_def r c2_def)
      from g g' have "chash_grows h h'" by (rule chash_grows_trans)
      moreover from n have "ncas \<le> ncas'" "ncas < ncas'" by simp_all
      moreover from l lt len n have "length c + (ncas' - ncas) \<le> length (c_slots h' ! slot)"
        by simp
      ultimately show ?thesis
        using post by (simp add: chash_put_post_def r c_def)
    qed
  qed
  qed
qed

lemma chash_put_loop_quiet:
  assumes quiet: "env t = []" "env (t + 1) = []" and slot: "slot < length (c_slots h)"
  shows "chash_put_loop mix env t ncas h slot key val =
     (case chash_walk (c_slots h ! slot) key 0 of
        Inl p \<Rightarrow>
          Some (True, ncas,
            h\<lparr>c_slots := (c_slots h)[slot := store_value (c_slots h ! slot) p val]\<rparr>)
      | Inr p \<Rightarrow>
          Some (False, Suc ncas,
            h\<lparr>c_slots := (c_slots h)[slot :=
                 c_slots h ! slot @ [\<lparr>node_key = key, node_value = val\<rparr>]]\<rparr>))"
proof (cases "chash_walk (c_slots h ! slot) key 0")
  case (Inl p)
  with assms show ?thesis
    by (subst chash_put_loop.simps) (simp add: interfere_Nil Let_def)
next
  case (Inr p)
  from chash_walk_Inr [OF Inr] have "length (c_slots h ! slot) = p" by simp
  with assms Inr show ?thesis
    by (subst chash_put_loop.simps) (simp add: interfere_Nil Let_def atomic_cas_def)
qed

lemma chash_put_loop_returns:
  assumes quiet: "\<forall>t'\<ge>N. env t' = []"
  shows "slot < length (c_slots h) \<Longrightarrow> \<exists>r. chash_put_loop mix env t ncas h slot key val = Some r"
proof (induction "N - t" arbitrary: t ncas h rule: less_induct)
  case less
  show ?case
  proof (cases "N \<le> t")
    case True
    with quiet have "env t = []" "env (t + 1) = []" by simp_all
    note eq = chash_put_loop_quiet [OF this less.prems, of mix ncas key val]
    show ?thesis
    proof (cases "chash_walk (c_slots h ! slot) key 0")
      case (Inl p)
      with eq have "chash_put_loop mix env t ncas h slot key val = Some (True, ncas,
            h\<lparr>c_slots := (c_slots h)[slot := store_value (c_slots h ! slot) p val]\<rparr>)"
        by simp
      then show ?thesis ..
    next
      case (Inr p)
      with eq have "chash_put_loop mix env t ncas h slot key val = Some (False, Suc ncas,
            h\<lparr>c_slots := (c_slots h)[slot :=
                 c_slots h ! slot @ [\<lparr>node_key = key, node_value = val\<rparr>]]\<rparr>)"
        by simp
      then show ?thesis ..
    qed
  next
    case False
    define h1 where "h1 = interfere mix (env t) h"
    define h2 where "h2 = interfere mix (env (t + 1)) h1"
    have g1: "chash_grows h h1" unfolding h1_def by (rule interfere_grows)
    have g2: "chash_grows h1 h2" unfolding h2_def by (rule interfere_grows)
    from less.prems g1 g2 have s1: "slot < length (c_slots h1)" and s2: "slot < length (c_slots h2)"
      by (simp_all add: chash_grows_def)
    from False have "N - (t + 2) < N - t" by simp
    from less.hyps [OF this s2] obtain r
      where rec: "chash_put_loop mix env (t + 2) (Suc ncas) h2 slot key val = Some r" by blast
    have unfold: "chash_put_loop mix env t ncas h slot key val =
      (case chash_walk (c_slots h1 ! slot) key 0 of
           Inl p \<Rightarrow>
             Some (True, ncas,
                h2\<lparr>c_slots := (c_slots h2)[slot := store_value (c_slots h2 ! slot) p val]\<rparr>)
         | Inr p \<Rightarrow>
             (case atomic_cas (c_slots h2 ! slot) p \<lparr>node_key = key, node_value = val\<rparr> of
                (ok, chain) \<Rightarrow>
                  if ok then Some (False, Suc ncas, h2\<lparr>c_slots := (c_slots h2)[slot := chain]\<rparr>)
                  else chash_put_loop mix env (t + 2) (Suc ncas) h2 slot key val))"
      using s1 unfolding h1_def h2_def
      by (subst chash_put_loop.simps) (simp only: Let_def not_le [symmetric] if_False)
    show ?thesis
    proof (cases "chash_walk (c_slots h1 ! slot) key 0")
      case (Inl p)
      with unfold show ?thesis by auto
    next
      case (Inr p)
      obtain ok chain
        where cas: "atomic_cas (c_slots h2 ! slot) p \<lparr>node_key = key, node_value = val\<rparr>
          = (ok, chain)" by (cases "atomic_cas (c_slots h2 ! slot) p \<lparr>node_key = key, node_value = val\<rparr>")
      show ?thesis
      proof (cases ok)
        case True
        with unfold Inr cas show ?thesis by auto
      next
        case False
        with unfold Inr cas rec have "chash_put_loop mix env t ncas h slot key val = Some r"
          by simp
        then show ?thesis ..
      qed
    qed
  qed
qed

text \<open>
  C5, as stated, fails: the walk of \<open>chash_put\<close> ends at the last link of the chain, and the
  new node, whose own \<open>chain\<close> is \<open>NULL\<close>, is stored there. With key 2 already in slot 0,
  putting key 4 (same slot), alone, leaves the node of key 2 at the head.
\<close>

theorem chash_put_not_head:
  "chash_put id env_quiet chash_one 4 20 =
     Some (False, 1, \<lparr>c_size = 2, c_members = 0,
       c_slots = [[\<lparr>node_key = 2, node_value = 10\<rparr>, \<lparr>node_key = 4, node_value = 20\<rparr>], []]\<rparr>)"
  by (simp add: chash_put_def hash_slot_def size_minus_1_def NULL_def chash_one_def
      chash_put_loop.simps atomic_cas_def env_quiet_def interfere_def)

text \<open>
  C5, amended. Let the key hash to a slot of the table, and let other threads put into
  the table in any way (\<open>env\<close>). Whenever \<open>chash_put\<close> returns, the table has the same size
  and the chain of the slot has only grown at its end: the keys it had are still its
  first keys, in the same order, so that a chain that was not empty keeps its head. If
  the key was not found, the new node is the last node of the chain, linked by the one
  compare-and-swap that succeeded, and it is the only node with the key; every
  compare-and-swap that failed before it was beaten by a node that another thread
  linked to the same chain, so the chain has grown by at least the number of calls of
  \<open>atomic_cas\<close>. If the key was found, its node has the value. \<open>chash_get\<close> then finds
  the value. \<open>chash_put\<close> does return when other threads stop writing from some instant
  on; and when the thread is alone, it calls \<open>atomic_cas\<close> once for a new key and never
  for a key that is there.
\<close>

theorem chash_put_tail:
  assumes "hash_slot mix (c_size h) key = Some slot" and "slot < length (c_slots h)"
  shows "(\<forall>found ncas h'. chash_put mix env h key val = Some (found, ncas, h') \<longrightarrow>
            c_size h' = c_size h \<and> length (c_slots h') = length (c_slots h)
            \<and> prefix (map node_key (c_slots h ! slot)) (map node_key (c_slots h' ! slot))
            \<and> length (c_slots h ! slot) + ncas \<le> length (c_slots h' ! slot)
            \<and> (\<not> found \<longrightarrow> 1 \<le> ncas \<and> c_slots h' ! slot \<noteq> []
                  \<and> last (c_slots h' ! slot) = \<lparr>node_key = key, node_value = val\<rparr>
                  \<and> key \<notin> node_key ` set (butlast (c_slots h' ! slot)))
            \<and> (found \<longrightarrow> key \<in> node_key ` set (c_slots h' ! slot))
            \<and> chash_get mix h' key = Some val)
         \<and> ((\<exists>N. \<forall>t\<ge>N. env t = []) \<longrightarrow> (\<exists>r. chash_put mix env h key val = Some r))
         \<and> ((\<forall>t. env t = []) \<longrightarrow>
              (\<exists>h'. chash_put mix env h key val =
                  Some (key \<in> node_key ` set (c_slots h ! slot),
                        if key \<in> node_key ` set (c_slots h ! slot) then 0 else 1, h')
                \<and> (key \<notin> node_key ` set (c_slots h ! slot) \<longrightarrow>
                      c_slots h' ! slot
                        = c_slots h ! slot @ [\<lparr>node_key = key, node_value = val\<rparr>])))"
proof (intro conjI allI impI)
  fix found ncas h'
  assume "chash_put mix env h key val = Some (found, ncas, h')"
  with assms(1) have "chash_put_loop mix env 0 0 h slot key val = Some (found, ncas, h')"
    by (simp add: chash_put_def)
  from chash_put_loop_post [OF this] assms(2)
  have post: "chash_put_post 0 h slot key val (found, ncas, h')" by simp
  then have g: "chash_grows h h'" by (simp add: chash_put_post_def)
  from g show "c_size h' = c_size h" "length (c_slots h') = length (c_slots h)"
    by (simp_all add: chash_grows_def)
  from g assms(2)
  show "prefix (map node_key (c_slots h ! slot)) (map node_key (c_slots h' ! slot))"
    by (simp add: chash_grows_def)
  from post show "length (c_slots h ! slot) + ncas \<le> length (c_slots h' ! slot)"
    by (simp add: chash_put_post_def)
  from post show "found \<Longrightarrow> key \<in> node_key ` set (c_slots h' ! slot)"
    by (simp add: chash_put_post_def)
  from post have "chash_find (c_slots h' ! slot) key = val" by (simp add: chash_put_post_def)
  with g assms show "chash_get mix h' key = Some val"
    by (simp add: chash_get_def chash_grows_def)
  assume "\<not> found"
  with post show "1 \<le> ncas" "c_slots h' ! slot \<noteq> []"
    "last (c_slots h' ! slot) = \<lparr>node_key = key, node_value = val\<rparr>"
    "key \<notin> node_key ` set (butlast (c_slots h' ! slot))"
    by (simp_all add: chash_put_post_def)
next
  assume "\<exists>N. \<forall>t\<ge>N. env t = []"
  then obtain N where "\<forall>t\<ge>N. env t = []" ..
  from chash_put_loop_returns [OF this assms(2)] assms(1)
  show "\<exists>r. chash_put mix env h key val = Some r"
    by (simp add: chash_put_def)
next
  assume quiet: "\<forall>t. env t = []"
  then have q: "env 0 = []" "env (0 + 1) = []" by simp_all
  note loop = chash_put_loop_quiet [OF q assms(2), of mix 0 key val]
  show "\<exists>h'. chash_put mix env h key val =
                  Some (key \<in> node_key ` set (c_slots h ! slot),
                        if key \<in> node_key ` set (c_slots h ! slot) then 0 else 1, h')
                \<and> (key \<notin> node_key ` set (c_slots h ! slot) \<longrightarrow>
                      c_slots h' ! slot
                        = c_slots h ! slot @ [\<lparr>node_key = key, node_value = val\<rparr>])"
  proof (cases "chash_walk (c_slots h ! slot) key 0")
    case (Inl p)
    from chash_walk_Inl [OF Inl] have "p < length (c_slots h ! slot)"
      "node_key (c_slots h ! slot ! p) = key" by auto
    then have "key \<in> node_key ` set (c_slots h ! slot)" by (metis image_eqI nth_mem)
    with loop Inl assms(1) show ?thesis by (simp add: chash_put_def)
  next
    case (Inr p)
    from chash_walk_Inr [OF Inr] have "key \<notin> node_key ` set (c_slots h ! slot)" by simp
    with loop Inr assms show ?thesis by (simp add: chash_put_def)
  qed
qed

theorem chash_put_tail_witness:
  "hash_slot id (c_size chash_one) 4 = Some 0 \<and> 0 < length (c_slots chash_one)
   \<and> chash_put id env_race chash_one 4 20 =
       Some (False, 2, \<lparr>c_size = 2, c_members = 0,
         c_slots = [[\<lparr>node_key = 2, node_value = 10\<rparr>, \<lparr>node_key = 6, node_value = 60\<rparr>,
                     \<lparr>node_key = 4, node_value = 20\<rparr>], []]\<rparr>)
   \<and> chash_get id \<lparr>c_size = 2, c_members = 0,
         c_slots = [[\<lparr>node_key = 2, node_value = 10\<rparr>, \<lparr>node_key = 6, node_value = 60\<rparr>,
                     \<lparr>node_key = 4, node_value = 20\<rparr>], []]\<rparr> 4 = Some 20"
proof -
  have s: "hash_slot id (c_size chash_one) 4 = Some 0"
    by (simp add: hash_slot_def size_minus_1_def NULL_def chash_one_def)
  have l: "0 < length (c_slots chash_one)"
    by (simp add: chash_one_def)
  have s6: "hash_slot id 2 6 = Some 0"
    by (simp add: hash_slot_def size_minus_1_def NULL_def)
  have race: "chash_put id env_race chash_one 4 20 =
       Some (False, 2, \<lparr>c_size = 2, c_members = 0,
         c_slots = [[\<lparr>node_key = 2, node_value = 10\<rparr>, \<lparr>node_key = 6, node_value = 60\<rparr>,
                     \<lparr>node_key = 4, node_value = 20\<rparr>], []]\<rparr>)"
    using s by (simp add: chash_put_def chash_one_def chash_put_loop.simps [of _ _ 0]
        chash_put_loop.simps [of _ _ "Suc (Suc 0)"] atomic_cas_def env_race_def interfere_def
        other_put_def chain_put_def s6 Let_def)
  have get: "chash_get id \<lparr>c_size = 2, c_members = 0,
         c_slots = [[\<lparr>node_key = 2, node_value = 10\<rparr>, \<lparr>node_key = 6, node_value = 60\<rparr>,
                     \<lparr>node_key = 4, node_value = 20\<rparr>], []]\<rparr> 4 = Some 20"
    by (simp add: chash_get_def hash_slot_def size_minus_1_def NULL_def)
  from chash_put_tail [OF s l, of env_race 20] race s l get show ?thesis
    by simp
qed

section \<open>Open addressing: probing and the invariant\<close>

section \<open>Open addressing\<close>

text \<open>
  What the three open-addressing tables share. A table is seen as a list of cells, each
  empty or holding a key and a value; \<open>p k j\<close> is the slot that the probe for key \<open>k\<close>
  visits at step \<open>j\<close>. The probe stops at step \<open>j\<close> when the cell there is empty or holds
  \<open>k\<close> and every cell visited before holds another key.
\<close>

lemma oa_stop_unique: "oa_stop cs q k j \<Longrightarrow> oa_stop cs q k j' \<Longrightarrow> j = j'"
proof (rule ccontr)
  assume a: "oa_stop cs q k j" and b: "oa_stop cs q k j'" and ne: "j \<noteq> j'"
  have False if "oa_stop cs q k x" "oa_stop cs q k y" "x < y" for x y
  proof -
    from that(2,3) obtain k' v' where "cs ! q x = Some (k', v')" "k' \<noteq> k"
      unfolding oa_stop_def by blast
    with that(1) show False unfolding oa_stop_def by auto
  qed
  from this [of j j'] this [of j' j] a b ne show False
    by (cases "j < j'") auto
qed

lemma oa_stop_exists:
  assumes inv: "oa_inv cs p" and empty: "\<exists>i<length cs. cs ! i = None"
  shows "\<exists>j. oa_stop cs (p k) k j"
proof -
  from empty obtain i where i: "i < length cs" "cs ! i = None" by blast
  with inv obtain j0 where "p k j0 = i" unfolding oa_inv_def by blast
  with i have ex: "cs ! p k j0 = None \<or> (\<exists>v. cs ! p k j0 = Some (k, v))" by simp
  define j where "j = (LEAST j. cs ! p k j = None \<or> (\<exists>v. cs ! p k j = Some (k, v)))"
  have at: "cs ! p k j = None \<or> (\<exists>v. cs ! p k j = Some (k, v))"
    unfolding j_def by (rule LeastI [of _ j0]) (rule ex)
  have before: "\<exists>k' v'. cs ! p k j' = Some (k', v') \<and> k' \<noteq> k" if "j' < j" for j'
  proof -
    from that have "\<not> (cs ! p k j' = None \<or> (\<exists>v. cs ! p k j' = Some (k, v)))"
      unfolding j_def by (rule not_less_Least)
    then show ?thesis by (cases "cs ! p k j'") auto
  qed
  from at before show ?thesis unfolding oa_stop_def by blast
qed

lemma oa_stop_present:
  assumes "oa_inv cs p" and "i < length cs" and "cs ! i = Some (k, v)"
  shows "\<exists>j. p k j = i \<and> oa_stop cs (p k) k j"
  using assms unfolding oa_inv_def by blast

lemma oa_stop_None:
  assumes inv: "oa_inv cs p" and stop: "oa_stop cs (p k) k j" and none: "cs ! p k j = None"
  shows "k \<notin> fst ` oa_entries cs"
proof
  assume "k \<in> fst ` oa_entries cs"
  then obtain i v where i: "i < length cs" "cs ! i = Some (k, v)"
    unfolding oa_entries_def by auto
  from oa_stop_present [OF inv i] obtain j0 where j0: "p k j0 = i" "oa_stop cs (p k) k j0"
    by blast
  from oa_stop_unique [OF stop j0(2)] j0(1) i(2) none show False by simp
qed

lemma oa_stop_Some:
  assumes inv: "oa_inv cs p" and "cs ! p k j = Some (k, v)"
  shows "(k, v) \<in> oa_entries cs"
  using assms unfolding oa_entries_def oa_inv_def by auto

lemma oa_entries_functional:
  assumes inv: "oa_inv cs p" and a: "(k, v) \<in> oa_entries cs" and b: "(k, v') \<in> oa_entries cs"
  shows "v = v'"
proof -
  from a b obtain i i' where i: "i < length cs" "cs ! i = Some (k, v)"
    and i': "i' < length cs" "cs ! i' = Some (k, v')"
    unfolding oa_entries_def by auto
  from oa_stop_present [OF inv i] oa_stop_present [OF inv i'] oa_stop_unique [of cs "p k" k]
  have "i = i'" by blast
  with i i' show ?thesis by simp
qed

lemma oa_inv_insert:
  assumes inv: "oa_inv cs p" and stop: "oa_stop cs (p k) k j"
  shows "oa_inv (cs[p k j := Some (k, v)]) p"
proof -
  let ?s = "p k j" and ?cs = "cs[p k j := Some (k, v)]"
  from inv have range: "\<And>k j. p k j < length cs" unfolding oa_inv_def by blast
  from stop have at: "cs ! ?s = None \<or> (\<exists>v. cs ! ?s = Some (k, v))"
    and before: "\<And>j'. j' < j \<Longrightarrow> \<exists>k' v'. cs ! p k j' = Some (k', v') \<and> k' \<noteq> k"
    unfolding oa_stop_def by blast+
  have reach: "\<exists>j1. p k1 j1 = i \<and> oa_stop ?cs (p k1) k1 j1"
    if i: "i < length cs" and c: "?cs ! i = Some (k1, v1)" for i k1 v1
  proof (cases "i = ?s")
    case True
    with c i have k1: "k1 = k" by simp
    have "oa_stop ?cs (p k) k j"
      unfolding oa_stop_def
    proof (intro conjI allI impI)
      show "?cs ! ?s = None \<or> (\<exists>v. ?cs ! ?s = Some (k, v))"
        using range by simp
    next
      fix j' assume "j' < j"
      from before [OF this] obtain k' v' where k': "cs ! p k j' = Some (k', v')" "k' \<noteq> k"
        by blast
      with at have "p k j' \<noteq> ?s" by auto
      with k' show "\<exists>k' v'. ?cs ! p k j' = Some (k', v') \<and> k' \<noteq> k" by simp
    qed
    with True k1 show ?thesis by blast
  next
    case False
    with c have old: "cs ! i = Some (k1, v1)" by simp
    from oa_stop_present [OF inv i old] obtain j1 where
      j1: "p k1 j1 = i" "oa_stop cs (p k1) k1 j1" by blast
    have "oa_stop ?cs (p k1) k1 j1"
      unfolding oa_stop_def
    proof (intro conjI allI impI)
      show "?cs ! p k1 j1 = None \<or> (\<exists>v. ?cs ! p k1 j1 = Some (k1, v))"
        using j1(1) False old by simp
    next
      fix j' assume "j' < j1"
      with j1(2) obtain k' v' where k': "cs ! p k1 j' = Some (k', v')" "k' \<noteq> k1"
        unfolding oa_stop_def by blast
      show "\<exists>k' v'. ?cs ! p k1 j' = Some (k', v') \<and> k' \<noteq> k1"
      proof (cases "p k1 j' = ?s")
        case True
        with k' at have "k' = k" by auto
        with k'(2) True range [of k j] show ?thesis by simp
      next
        case False
        with k' show ?thesis by simp
      qed
    qed
    with j1(1) show ?thesis by blast
  qed
  show ?thesis
    unfolding oa_inv_def using inv reach
    by (simp add: oa_inv_def)
qed

lemma oa_entries_insert:
  assumes inv: "oa_inv cs p" and stop: "oa_stop cs (p k) k j"
  shows "oa_entries (cs[p k j := Some (k, v)]) = {e \<in> oa_entries cs. fst e \<noteq> k} \<union> {(k, v)}"
proof -
  let ?s = "p k j" and ?cs = "cs[p k j := Some (k, v)]"
  from inv have range: "?s < length cs" unfolding oa_inv_def by blast
  from stop have at: "cs ! ?s = None \<or> (\<exists>v. cs ! ?s = Some (k, v))"
    unfolding oa_stop_def by blast
  have only: "i = ?s" if "i < length cs" "cs ! i = Some (k, v')" for i v'
  proof -
    from oa_stop_present [OF inv that] obtain j0 where "p k j0 = i" "oa_stop cs (p k) k j0"
      by blast
    with oa_stop_unique [OF stop] show ?thesis by blast
  qed
  have "(k1, v1) \<in> oa_entries ?cs \<longleftrightarrow>
      (k1, v1) \<in> oa_entries cs \<and> k1 \<noteq> k \<or> (k1, v1) = (k, v)" for k1 v1
  proof
    assume "(k1, v1) \<in> oa_entries ?cs"
    then obtain i where i: "i < length cs" "?cs ! i = Some (k1, v1)"
      unfolding oa_entries_def by auto
    show "(k1, v1) \<in> oa_entries cs \<and> k1 \<noteq> k \<or> (k1, v1) = (k, v)"
    proof (cases "i = ?s")
      case True
      with i show ?thesis by simp
    next
      case False
      with i have old: "cs ! i = Some (k1, v1)" by simp
      with only [OF i(1)] False have "k1 \<noteq> k" by auto
      with old i(1) show ?thesis unfolding oa_entries_def by auto
    qed
  next
    assume "(k1, v1) \<in> oa_entries cs \<and> k1 \<noteq> k \<or> (k1, v1) = (k, v)"
    then consider "(k1, v1) = (k, v)" | "(k1, v1) \<in> oa_entries cs" "k1 \<noteq> k" by auto
    then show "(k1, v1) \<in> oa_entries ?cs"
    proof cases
      case 1
      with range show ?thesis unfolding oa_entries_def by auto
    next
      case 2
      then obtain i where i: "i < length cs" "cs ! i = Some (k1, v1)"
        unfolding oa_entries_def by auto
      with at 2(2) have "i \<noteq> ?s" by auto
      with i show ?thesis unfolding oa_entries_def by auto
    qed
  qed
  then show ?thesis by auto
qed

lemma oa_count_empty: "oa_count cs < length cs \<Longrightarrow> \<exists>i<length cs. cs ! i = None"
proof (rule ccontr)
  assume lt: "oa_count cs < length cs" and "\<not> (\<exists>i<length cs. cs ! i = None)"
  then have "\<forall>c\<in>set cs. c \<noteq> None" by (auto simp: in_set_conv_nth)
  then have "filter (\<lambda>c. c \<noteq> None) cs = cs" by (simp add: filter_True)
  with lt show False by (simp add: oa_count_def)
qed

lemma oa_count_update:
  assumes "i < length cs"
  shows "oa_count (cs[i := Some e]) = (if cs ! i = None then Suc (oa_count cs) else oa_count cs)"
proof -
  from assms have cs: "cs = take i cs @ cs ! i # drop (Suc i) cs"
    by (simp add: id_take_nth_drop)
  from assms have "cs[i := Some e] = take i cs @ Some e # drop (Suc i) cs"
    by (simp add: upd_conv_take_nth_drop)
  then have "oa_count (cs[i := Some e])
      = length (filter (\<lambda>c. c \<noteq> None) (take i cs)) + 1
        + length (filter (\<lambda>c. c \<noteq> None) (drop (Suc i) cs))"
    by (simp add: oa_count_def)
  moreover have "oa_count cs = length (filter (\<lambda>c. c \<noteq> None) (take i cs))
        + (if cs ! i = None then 0 else 1)
        + length (filter (\<lambda>c. c \<noteq> None) (drop (Suc i) cs))"
    by (subst cs) (simp add: oa_count_def)
  ultimately show ?thesis by simp
qed

subsection \<open>Probe sequences\<close>

text \<open>
  The slot after \<open>j\<close> steps of a probe that starts in slot \<open>s\<close> of a table of \<open>n\<close>
  slots: \<open>quad_pos\<close> when step \<open>j\<close> advances by \<open>j\<close>, \<open>lin_pos\<close> when every step
  advances by one.
\<close>

lemma lin_pos_eq: "s < n \<Longrightarrow> lin_pos n s j = (s + j) mod n"
  by (induction j) (simp_all add: mod_Suc_eq)

lemma lin_pos_less: "s < n \<Longrightarrow> lin_pos n s j < n"
  by (simp add: lin_pos_eq)

lemma lin_pos_cover:
  assumes "s < n" and "i < n"
  shows "\<exists>j. lin_pos n s j = i"
proof -
  have "(s + (i + n - s)) mod n = i" using assms by simp
  with assms(1) show ?thesis by (metis lin_pos_eq)
qed

lemma triangle_double: "2 * triangle j = j * (j + 1)"
  by (simp add: triangle_def)

lemma triangle_Suc: "triangle (Suc j) = triangle j + Suc j"
proof -
  have "2 * triangle (Suc j) = Suc j * (Suc j + 1)" by (rule triangle_double)
  also have "\<dots> = j * (j + 1) + 2 * Suc j" by simp
  also have "\<dots> = 2 * triangle j + 2 * Suc j" by (simp only: triangle_double)
  finally show ?thesis by simp
qed

lemma triangle_mono: "a \<le> b \<Longrightarrow> triangle a \<le> triangle b"
  unfolding triangle_def by (intro div_le_mono mult_le_mono) simp_all

lemma quad_pos_eq: "s < n \<Longrightarrow> quad_pos n s j = (s + triangle j) mod n"
proof (induction j)
  case 0
  then show ?case by (simp add: triangle_def)
next
  case (Suc j)
  have "quad_pos n s (Suc j) = ((s + triangle j) mod n + Suc j) mod n"
    using Suc by simp
  also have "\<dots> = (s + triangle j + Suc j) mod n"
    by (rule mod_add_left_eq)
  also have "\<dots> = (s + triangle (Suc j)) mod n"
    by (simp only: triangle_Suc add.assoc)
  finally show ?case .
qed

lemma quad_pos_less: "s < n \<Longrightarrow> quad_pos n s j < n"
  by (simp add: quad_pos_eq)

lemma mod_add_cancel_nat:
  assumes "(s + x) mod n = (s + y) mod (n :: nat)"
  shows "x mod n = y mod n"
proof -
  have *: "x' mod n = y' mod n" if "y' \<le> x'" "(s + x') mod n = (s + y') mod n" for x' y'
  proof -
    from that have "n dvd (s + x') - (s + y')"
      by (simp add: mod_eq_dvd_iff_nat)
    then have "n dvd x' - y'" by simp
    with that(1) show ?thesis by (simp add: mod_eq_dvd_iff_nat)
  qed
  show ?thesis
  proof (cases "y \<le> x")
    case True
    from * [OF True assms] show ?thesis .
  next
    case False
    then have "x \<le> y" by simp
    from * [OF this assms [symmetric]] show ?thesis by simp
  qed
qed

lemma triangle_inj:
  assumes ab: "a < b" and bn: "b < 2 ^ m"
  shows "triangle a mod 2 ^ m \<noteq> triangle b mod 2 ^ m"
proof
  assume eq: "triangle a mod 2 ^ m = triangle b mod 2 ^ m"
  have le: "triangle a \<le> triangle b"
    using ab by (intro triangle_mono) simp
  from eq have "triangle b mod 2 ^ m = triangle a mod 2 ^ m" by simp
  with le have "2 ^ m dvd triangle b - triangle a"
    by (simp add: mod_eq_dvd_iff_nat)
  then have d2: "2 ^ Suc m dvd 2 * (triangle b - triangle a)" by simp
  have "2 * (triangle b - triangle a) = 2 * triangle b - 2 * triangle a"
    by (rule diff_mult_distrib2)
  also have "\<dots> = b * (b + 1) - a * (a + 1)"
    by (simp only: triangle_double)
  also have "\<dots> = (b - a) * (a + b + 1)"
  proof -
    from ab obtain d where b: "b = a + d" using less_imp_add_positive by blast
    show ?thesis by (simp add: b algebra_simps)
  qed
  finally have "2 * (triangle b - triangle a) = (b - a) * (a + b + 1)" .
  with d2 have dvd: "2 ^ Suc m dvd (b - a) * (a + b + 1)" by (simp only:)
  show False
  proof (cases "odd (b - a)")
    case True
    then have "coprime (2 ^ Suc m) (b - a)" by simp
    with dvd have "2 ^ Suc m dvd a + b + 1"
      by (simp only: coprime_dvd_mult_right_iff)
    then have "2 ^ Suc m \<le> a + b + 1" by (rule dvd_imp_le) simp
    with ab bn show False by simp
  next
    case False
    with ab have "odd (a + b + 1)" by auto
    then have "coprime (2 ^ Suc m) (a + b + 1)" by simp
    with dvd have "2 ^ Suc m dvd b - a"
      by (simp only: coprime_dvd_mult_left_iff)
    then have "2 ^ Suc m \<le> b - a" using ab by (intro dvd_imp_le) simp_all
    with ab bn show False by simp
  qed
qed

lemma quad_pos_inj:
  assumes s: "s < 2 ^ m" and a: "a < 2 ^ m" and b: "b < 2 ^ m"
    and eq: "quad_pos (2 ^ m) s a = quad_pos (2 ^ m) s b"
  shows "a = b"
proof (rule ccontr)
  assume ne: "a \<noteq> b"
  from eq s have "(s + triangle a) mod 2 ^ m = (s + triangle b) mod 2 ^ m"
    by (simp only: quad_pos_eq)
  then have "triangle a mod 2 ^ m = triangle b mod 2 ^ m"
    by (rule mod_add_cancel_nat)
  with triangle_inj [of a b m] triangle_inj [of b a m] a b ne show False
    by (cases "a < b") auto
qed

lemma quad_pos_cover:
  assumes s: "s < 2 ^ m" and i: "i < 2 ^ m"
  shows "\<exists>j. quad_pos (2 ^ m) s j = i"
proof -
  let ?f = "quad_pos (2 ^ m) s" and ?A = "{..<2 ^ m :: nat}"
  have inj: "inj_on ?f ?A"
    using quad_pos_inj [OF s] by (auto simp: inj_on_def)
  have sub: "?f ` ?A \<subseteq> ?A"
    using quad_pos_less [OF s] by auto
  have "card (?f ` ?A) = card ?A" using inj by (rule card_image)
  with sub have "?f ` ?A = ?A" by (intro card_subset_eq) simp_all
  with i have "i \<in> ?f ` ?A" by simp
  then show ?thesis by auto
qed

section \<open>The pointer table\<close>

subsection \<open>The pointer table as cells\<close>

lemma and_mask_nat: "x AND (2 ^ m - 1) = x mod 2 ^ m" for x :: nat
proof -
  have "x AND (2 ^ m - 1) = x AND mask m" by (simp only: mask_eq_exp_minus_1)
  also have "\<dots> = take_bit m x" by (simp only: take_bit_eq_mask)
  also have "\<dots> = x mod 2 ^ m" by (rule take_bit_eq_mod)
  finally show ?thesis .
qed

lemma size_minus_1_unsigned:
  assumes "0 < a" and "a \<le> N"
  shows "(a + N - 1) mod N = a - (1 :: nat)"
proof -
  from assms(1) have "a + N - 1 = (a - 1) + N" by simp
  then have "(a + N - 1) mod N = (a - 1) mod N" by (simp only: mod_add_self2)
  also have "\<dots> = a - 1" using assms by simp
  finally show ?thesis .
qed

lemma size_minus_1_pow2:
  assumes "m \<le> 31"
  shows "size_minus_1 (2 ^ m) = 2 ^ m - 1"
proof -
  have "(2 :: nat) ^ m < 2 ^ 32"
    by (rule power_strict_increasing) (use assms in simp_all)
  then show ?thesis
    unfolding size_minus_1_def by (intro size_minus_1_unsigned) simp_all
qed

lemma and_size_minus_1: "m \<le> 31 \<Longrightarrow> x AND size_minus_1 (2 ^ m) = x mod 2 ^ m"
  by (simp only: size_minus_1_pow2 and_mask_nat)

lemma hash_slot_pow2:
  assumes "m \<le> 31" and "key \<noteq> NULL"
  shows "hash_slot mix (2 ^ m) key = Some (unat (mix key) mod 2 ^ m)"
proof -
  have "size_minus_1 (2 ^ m) = 2 ^ m - 1"
    using assms(1) by (rule size_minus_1_pow2)
  moreover have "(word_of_nat (2 ^ m - 1) :: 64 word) = mask m"
    by (simp add: mask_eq_exp_minus_1 of_nat_diff)
  moreover have "unat (mix key AND mask m) = unat (mix key) mod 2 ^ m"
  proof -
    have "unat (mix key AND mask m) = unat (take_bit m (mix key))"
      by (simp only: take_bit_eq_mask)
    also have "\<dots> = take_bit m (unat (mix key))" by (rule unsigned_take_bit_eq)
    also have "\<dots> = unat (mix key) mod 2 ^ m" by (rule take_bit_eq_mod)
    finally show ?thesis .
  qed
  ultimately show ?thesis using assms(2) by (simp add: hash_slot_def)
qed

lemma hcells_length: "length (h_keys h) = n \<Longrightarrow> length (h_values h) = n \<Longrightarrow> length (hcells h) = n"
  by (simp add: hcells_def)

lemma hcells_nth:
  assumes "i < length (h_keys h)" and "i < length (h_values h)"
  shows "hcells h ! i = (if h_keys h ! i = NULL then None else Some (h_keys h ! i, h_values h ! i))"
  using assms by (simp add: hcells_def)

lemma hpos_less: "0 < n \<Longrightarrow> hpos mix n k j < n"
  by (simp add: hpos_def quad_pos_less)

lemma hpos_Suc: "hpos mix n k (Suc j) = (hpos mix n k j + Suc j) mod n"
  by (simp add: hpos_def)

lemma hpos_range_cover:
  "(\<forall>k j. hpos mix (2 ^ m) k j < 2 ^ m) \<and> (\<forall>k. \<forall>i<2 ^ m. \<exists>j. hpos mix (2 ^ m) k j = i)"
  by (simp add: hpos_def quad_pos_less quad_pos_cover)

lemma hcells_update:
  assumes "length (h_keys h) = n" and "length (h_values h) = n" and "i < n"
  shows "hcells (h\<lparr>h_values := (h_values h)[i := v], h_keys := (h_keys h)[i := k]\<rparr>)
           = (hcells h)[i := if k = NULL then None else Some (k, v)]"
  using assms by (intro nth_equalityI) (auto simp: hcells_def nth_list_update)

lemma hcells_update_value:
  assumes "length (h_keys h) = n" and "length (h_values h) = n" and "i < n"
  shows "hcells (h\<lparr>h_values := (h_values h)[i := v]\<rparr>)
           = (hcells h)[i := if h_keys h ! i = NULL then None else Some (h_keys h ! i, v)]"
  using assms by (intro nth_equalityI) (auto simp: hcells_def nth_list_update)

lemma oa_stop_hcells:
  assumes len: "length (h_keys h) = n" "length (h_values h) = n"
    and q: "\<forall>j. q j < n" and key: "key \<noteq> NULL"
    and stop: "oa_stop (hcells h) q key j"
  shows "\<forall>j'<j. h_keys h ! q j' \<noteq> key \<and> h_keys h ! q j' \<noteq> NULL"
    and "h_keys h ! q j = key \<or> h_keys h ! q j = NULL"
proof -
  have nth: "hcells h ! q x
      = (if h_keys h ! q x = NULL then None else Some (h_keys h ! q x, h_values h ! q x))" for x
    using len q by (intro hcells_nth) simp_all
  show "\<forall>j'<j. h_keys h ! q j' \<noteq> key \<and> h_keys h ! q j' \<noteq> NULL"
  proof (intro allI impI)
    fix j' assume "j' < j"
    with stop obtain k' v' where "hcells h ! q j' = Some (k', v')" "k' \<noteq> key"
      unfolding oa_stop_def by blast
    then show "h_keys h ! q j' \<noteq> key \<and> h_keys h ! q j' \<noteq> NULL"
      by (auto simp: nth split: if_splits)
  qed
  from stop have "hcells h ! q j = None \<or> (\<exists>v. hcells h ! q j = Some (key, v))"
    unfolding oa_stop_def by blast
  then show "h_keys h ! q j = key \<or> h_keys h ! q j = NULL"
    by (auto simp: nth split: if_splits)
qed

lemma and_mask_nat_Suc: "x AND (2 ^ m - Suc 0) = x mod 2 ^ m" for x :: nat
  using and_mask_nat [of x m] by simp

lemma hash_get_loop_skip:
  assumes "h_size h = 2 ^ m" and "length (h_keys h) = 2 ^ m" and "length (h_values h) = 2 ^ m"
    and m31: "m \<le> 31"
    and "\<forall>j'<j. h_keys h ! hpos mix (2 ^ m) k j' \<noteq> key \<and> h_keys h ! hpos mix (2 ^ m) k j' \<noteq> NULL"
  shows "hash_get_loop h key (hpos mix (2 ^ m) k 0) 1
           = hash_get_loop h key (hpos mix (2 ^ m) k j) (Suc j)"
  using assms(5)
proof (induction j)
  case 0
  show ?case by simp
next
  case (Suc j)
  then have ih: "hash_get_loop h key (hpos mix (2 ^ m) k 0) 1
      = hash_get_loop h key (hpos mix (2 ^ m) k j) (Suc j)" by simp
  have lt: "\<not> 2 ^ m \<le> hpos mix (2 ^ m) k j" by (simp add: hpos_less not_le)
  from Suc.prems have ne: "h_keys h ! hpos mix (2 ^ m) k j \<noteq> key"
    "h_keys h ! hpos mix (2 ^ m) k j \<noteq> NULL" by simp_all
  have "hash_get_loop h key (hpos mix (2 ^ m) k j) (Suc j)
      = hash_get_loop h key (hpos mix (2 ^ m) k (Suc j)) (Suc (Suc j))"
    by (subst hash_get_loop.simps) (simp add: assms(1-3) lt ne and_size_minus_1 [OF m31] hpos_Suc)
  with ih show ?case by simp
qed

lemma hash_delete_loop_skip:
  assumes "h_size h = 2 ^ m" and "length (h_keys h) = 2 ^ m" and "length (h_values h) = 2 ^ m"
    and m31: "m \<le> 31"
    and "\<forall>j'<j. h_keys h ! hpos mix (2 ^ m) k j' \<noteq> key \<and> h_keys h ! hpos mix (2 ^ m) k j' \<noteq> NULL"
  shows "hash_delete_loop h key (hpos mix (2 ^ m) k 0) 1
           = hash_delete_loop h key (hpos mix (2 ^ m) k j) (Suc j)"
  using assms(5)
proof (induction j)
  case 0
  show ?case by simp
next
  case (Suc j)
  then have ih: "hash_delete_loop h key (hpos mix (2 ^ m) k 0) 1
      = hash_delete_loop h key (hpos mix (2 ^ m) k j) (Suc j)" by simp
  have lt: "\<not> 2 ^ m \<le> hpos mix (2 ^ m) k j" by (simp add: hpos_less not_le)
  from Suc.prems have ne: "h_keys h ! hpos mix (2 ^ m) k j \<noteq> key"
    "h_keys h ! hpos mix (2 ^ m) k j \<noteq> NULL" by simp_all
  have "hash_delete_loop h key (hpos mix (2 ^ m) k j) (Suc j)
      = hash_delete_loop h key (hpos mix (2 ^ m) k (Suc j)) (Suc (Suc j))"
    by (subst hash_delete_loop.simps) (simp add: assms(1-3) lt ne and_size_minus_1 [OF m31] hpos_Suc)
  with ih show ?case by simp
qed

lemma hash_put_loop_skip:
  assumes "h_size h = 2 ^ m" and "length (h_keys h) = 2 ^ m" and "length (h_values h) = 2 ^ m"
    and m31: "m \<le> 31"
    and "\<forall>j'<j. h_keys h ! hpos mix (2 ^ m) k j' \<noteq> key \<and> h_keys h ! hpos mix (2 ^ m) k j' \<noteq> NULL"
  shows "hash_put_loop h key val (hpos mix (2 ^ m) k 0) 1
           = hash_put_loop h key val (hpos mix (2 ^ m) k j) (Suc j)"
  using assms(5)
proof (induction j)
  case 0
  show ?case by simp
next
  case (Suc j)
  then have ih: "hash_put_loop h key val (hpos mix (2 ^ m) k 0) 1
      = hash_put_loop h key val (hpos mix (2 ^ m) k j) (Suc j)" by simp
  have lt: "\<not> 2 ^ m \<le> hpos mix (2 ^ m) k j" by (simp add: hpos_less not_le)
  from Suc.prems have ne: "h_keys h ! hpos mix (2 ^ m) k j \<noteq> key"
    "h_keys h ! hpos mix (2 ^ m) k j \<noteq> NULL" by simp_all
  have "hash_put_loop h key val (hpos mix (2 ^ m) k j) (Suc j)
      = hash_put_loop h key val (hpos mix (2 ^ m) k (Suc j)) (Suc (Suc j))"
    by (subst hash_put_loop.simps) (simp add: assms(1-3) lt ne and_size_minus_1 [OF m31] hpos_Suc)
  with ih show ?case by simp
qed

text \<open>What the three functions do, given the step at which the probe stops.\<close>

lemma hash_get_stop:
  assumes sz: "h_size h = 2 ^ m" "m \<le> 31"
    and len: "length (h_keys h) = 2 ^ m" "length (h_values h) = 2 ^ m"
    and key: "key \<noteq> NULL" and stop: "oa_stop (hcells h) (hpos mix (2 ^ m) key) key j"
  shows "hash_get mix h key =
     Some (if h_keys h ! hpos mix (2 ^ m) key j = key
           then h_values h ! hpos mix (2 ^ m) key j else NULL)"
proof -
  have q: "\<forall>j. hpos mix (2 ^ m) key j < 2 ^ m" by (simp add: hpos_less)
  have lt: "\<not> 2 ^ m \<le> hpos mix (2 ^ m) key j" by (simp add: hpos_less not_le)
  note s = oa_stop_hcells [OF len q key stop]
  have "hash_get mix h key = hash_get_loop h key (hpos mix (2 ^ m) key 0) 1"
    by (simp add: hash_get_def sz hash_slot_pow2 [OF sz(2) key] hpos_def)
  also have "\<dots> = hash_get_loop h key (hpos mix (2 ^ m) key j) (Suc j)"
    by (rule hash_get_loop_skip [OF sz(1) len sz(2) s(1)])
  also have "\<dots> = Some (if h_keys h ! hpos mix (2 ^ m) key j = key
           then h_values h ! hpos mix (2 ^ m) key j else NULL)"
    using s(2) key by (subst hash_get_loop.simps) (auto simp: len lt)
  finally show ?thesis .
qed

lemma hash_delete_stop:
  assumes sz: "h_size h = 2 ^ m" "m \<le> 31"
    and len: "length (h_keys h) = 2 ^ m" "length (h_values h) = 2 ^ m"
    and key: "key \<noteq> NULL" and stop: "oa_stop (hcells h) (hpos mix (2 ^ m) key) key j"
  shows "hash_delete mix h key =
     Some (if h_keys h ! hpos mix (2 ^ m) key j = key
           then h\<lparr>h_values := (h_values h)[hpos mix (2 ^ m) key j := NULL]\<rparr> else h)"
proof -
  have q: "\<forall>j. hpos mix (2 ^ m) key j < 2 ^ m" by (simp add: hpos_less)
  have lt: "\<not> 2 ^ m \<le> hpos mix (2 ^ m) key j" by (simp add: hpos_less not_le)
  note s = oa_stop_hcells [OF len q key stop]
  have "hash_delete mix h key = hash_delete_loop h key (hpos mix (2 ^ m) key 0) 1"
    by (simp add: hash_delete_def sz hash_slot_pow2 [OF sz(2) key] hpos_def)
  also have "\<dots> = hash_delete_loop h key (hpos mix (2 ^ m) key j) (Suc j)"
    by (rule hash_delete_loop_skip [OF sz(1) len sz(2) s(1)])
  also have "\<dots> = Some (if h_keys h ! hpos mix (2 ^ m) key j = key
           then h\<lparr>h_values := (h_values h)[hpos mix (2 ^ m) key j := NULL]\<rparr> else h)"
    using s(2) key by (subst hash_delete_loop.simps) (auto simp: len lt)
  finally show ?thesis .
qed

lemma hash_put_loop_stop:
  assumes sz: "h_size h = 2 ^ m" "m \<le> 31"
    and len: "length (h_keys h) = 2 ^ m" "length (h_values h) = 2 ^ m"
    and key: "key \<noteq> NULL" and stop: "oa_stop (hcells h) (hpos mix (2 ^ m) key) key j"
  shows "hash_put_loop h key val (hpos mix (2 ^ m) key 0) 1 =
     Some (if h_keys h ! hpos mix (2 ^ m) key j = key
           then (True, h\<lparr>h_values := (h_values h)[hpos mix (2 ^ m) key j := val]\<rparr>)
           else (False, h\<lparr>h_values := (h_values h)[hpos mix (2 ^ m) key j := val],
                           h_keys := (h_keys h)[hpos mix (2 ^ m) key j := key],
                           h_members := (h_members h + 1) mod 2 ^ 32\<rparr>))"
proof -
  have q: "\<forall>j. hpos mix (2 ^ m) key j < 2 ^ m" by (simp add: hpos_less)
  have lt: "\<not> 2 ^ m \<le> hpos mix (2 ^ m) key j" by (simp add: hpos_less not_le)
  note s = oa_stop_hcells [OF len q key stop]
  have "hash_put_loop h key val (hpos mix (2 ^ m) key 0) 1
      = hash_put_loop h key val (hpos mix (2 ^ m) key j) (Suc j)"
    by (rule hash_put_loop_skip [OF sz(1) len sz(2) s(1)])
  also have "\<dots> = Some (if h_keys h ! hpos mix (2 ^ m) key j = key
           then (True, h\<lparr>h_values := (h_values h)[hpos mix (2 ^ m) key j := val]\<rparr>)
           else (False, h\<lparr>h_values := (h_values h)[hpos mix (2 ^ m) key j := val],
                           h_keys := (h_keys h)[hpos mix (2 ^ m) key j := key],
                           h_members := (h_members h + 1) mod 2 ^ 32\<rparr>))"
    using s(2) key by (subst hash_put_loop.simps) (auto simp: len lt)
  finally show ?thesis .
qed

lemma hash_invE:
  assumes "hash_inv mix h"
  obtains m where "m \<le> 30" and "h_size h = 2 ^ m" and "length (h_keys h) = 2 ^ m"
    and "length (h_values h) = 2 ^ m" and "length (hcells h) = 2 ^ m"
    and "oa_inv (hcells h) (hpos mix (2 ^ m))"
    and "h_members h = oa_count (hcells h)" and "h_members h \<le> 2 ^ m div 2"
    and "\<exists>i<length (hcells h). hcells h ! i = None"
proof -
  from assms obtain m where m: "m \<le> 30" "h_size h = 2 ^ m" unfolding hash_inv_def by blast
  from assms m have len: "length (h_keys h) = 2 ^ m" "length (h_values h) = 2 ^ m"
    and inv: "oa_inv (hcells h) (hpos mix (2 ^ m))"
    and mem: "h_members h = oa_count (hcells h)" "h_members h \<le> 2 ^ m div 2"
    unfolding hash_inv_def by simp_all
  from len have lc: "length (hcells h) = 2 ^ m" by (simp add: hcells_def)
  have "(2::nat) ^ m div 2 < 2 ^ m" by simp
  with mem lc have "oa_count (hcells h) < length (hcells h)" by linarith
  then have "\<exists>i<length (hcells h). hcells h ! i = None" by (rule oa_count_empty)
  with m len lc inv mem show thesis by (rule that)
qed

lemma hash_entries_not_NULL: "(k, v) \<in> oa_entries (hcells h) \<Longrightarrow> k \<noteq> NULL"
  by (auto simp: oa_entries_def hcells_def split: if_splits)

lemma hash_get_present:
  assumes inv: "hash_inv mix h" and e: "(key, v) \<in> oa_entries (hcells h)"
  shows "hash_get mix h key = Some v"
proof -
  from e have key: "key \<noteq> NULL" by (rule hash_entries_not_NULL)
  from inv obtain m where m: "m \<le> 30" "h_size h = 2 ^ m"
    and len: "length (h_keys h) = 2 ^ m" "length (h_values h) = 2 ^ m"
    and oa: "oa_inv (hcells h) (hpos mix (2 ^ m))"
    and empty: "\<exists>i<length (hcells h). hcells h ! i = None"
    by (rule hash_invE)
  let ?p = "hpos mix (2 ^ m)"
  from oa_stop_exists [OF oa empty] obtain j where stop: "oa_stop (hcells h) (?p key) key j" ..
  have lt: "?p key j < 2 ^ m" by (simp add: hpos_less)
  have nth: "hcells h ! ?p key j
      = (if h_keys h ! ?p key j = NULL then None else Some (h_keys h ! ?p key j, h_values h ! ?p key j))"
    using len lt by (intro hcells_nth) simp_all
  from m have m31: "m \<le> 31" by simp
  note get = hash_get_stop [OF m(2) m31 len key stop]
  from stop have "hcells h ! ?p key j = None \<or> (\<exists>v'. hcells h ! ?p key j = Some (key, v'))"
    unfolding oa_stop_def by blast
  then show ?thesis
  proof
    assume none: "hcells h ! ?p key j = None"
    from oa_stop_None [OF oa stop none] e have False by force
    then show ?thesis ..
  next
    assume "\<exists>v'. hcells h ! ?p key j = Some (key, v')"
    then obtain v' where some: "hcells h ! ?p key j = Some (key, v')" ..
    from oa_stop_Some [OF oa some] have "(key, v') \<in> oa_entries (hcells h)" .
    with oa e have "v = v'" by (rule oa_entries_functional)
    with some nth get show ?thesis by (auto split: if_splits)
  qed
qed

lemma hash_get_absent:
  assumes inv: "hash_inv mix h" and key: "key \<noteq> NULL"
    and e: "key \<notin> fst ` oa_entries (hcells h)"
  shows "hash_get mix h key = Some NULL"
proof -
  from inv obtain m where m: "m \<le> 30" "h_size h = 2 ^ m"
    and len: "length (h_keys h) = 2 ^ m" "length (h_values h) = 2 ^ m"
    and oa: "oa_inv (hcells h) (hpos mix (2 ^ m))"
    and empty: "\<exists>i<length (hcells h). hcells h ! i = None"
    by (rule hash_invE)
  let ?p = "hpos mix (2 ^ m)"
  from oa_stop_exists [OF oa empty] obtain j where stop: "oa_stop (hcells h) (?p key) key j" ..
  have lt: "?p key j < 2 ^ m" by (simp add: hpos_less)
  have nth: "hcells h ! ?p key j
      = (if h_keys h ! ?p key j = NULL then None else Some (h_keys h ! ?p key j, h_values h ! ?p key j))"
    using len lt by (intro hcells_nth) simp_all
  from m have m31: "m \<le> 31" by simp
  note get = hash_get_stop [OF m(2) m31 len key stop]
  have "h_keys h ! ?p key j \<noteq> key"
  proof
    assume "h_keys h ! ?p key j = key"
    with nth key have "hcells h ! ?p key j = Some (key, h_values h ! ?p key j)" by simp
    from oa_stop_Some [OF oa this] e show False by force
  qed
  with get show ?thesis by simp
qed

lemma hash_get_cong:
  assumes "hash_inv mix h" and "hash_inv mix h'" and "key \<noteq> NULL"
    and "\<And>v. ((key, v) \<in> oa_entries (hcells h')) = ((key, v) \<in> oa_entries (hcells h))"
  shows "hash_get mix h' key = hash_get mix h key"
proof (cases "key \<in> fst ` oa_entries (hcells h)")
  case True
  then obtain v where v: "(key, v) \<in> oa_entries (hcells h)" by auto
  with assms(4) have "(key, v) \<in> oa_entries (hcells h')" by simp
  with v assms(1,2) show ?thesis by (simp add: hash_get_present)
next
  case False
  with assms(4) have "key \<notin> fst ` oa_entries (hcells h')" by auto
  with False assms(1-3) show ?thesis by (simp add: hash_get_absent)
qed

lemma hash_iter_loop_entry:
  "hash_iter_loop h now = Some (True, now', Some (k, v)) \<Longrightarrow>
     \<exists>i. i < length (h_keys h) \<and> i < length (h_values h) \<and> h_keys h ! i = k
        \<and> h_values h ! i = v \<and> k \<noteq> NULL \<and> v \<noteq> NULL"
proof (induction h now rule: hash_iter_loop.induct)
  case (1 h now)
  show ?case
  proof (cases "now < h_size h \<and> \<not> (length (h_keys h) \<le> now \<or> length (h_values h) \<le> now)")
    case False
    with "1.prems" show ?thesis
      by (subst (asm) hash_iter_loop.simps) (auto split: if_splits)
  next
    case in_range: True
    show ?thesis
    proof (cases "h_keys h ! now \<noteq> NULL \<and> h_values h ! now \<noteq> NULL")
      case True
      with in_range "1.prems" have "k = h_keys h ! now" "v = h_values h ! now"
        by (subst (asm) hash_iter_loop.simps, simp)+
      with True in_range show ?thesis by (intro exI [of _ now]) simp
    next
      case False
      with in_range "1.prems" have "hash_iter_loop h (now + 1) = Some (True, now', Some (k, v))"
        by (subst (asm) hash_iter_loop.simps) (simp split: if_splits)
      with "1.IH" in_range False show ?thesis by blast
    qed
  qed
qed

lemma hash_delete_spec:
  assumes inv: "hash_inv mix h" and key: "key \<noteq> NULL" and present: "key \<in> set (h_keys h)"
  shows "\<exists>j. hash_delete mix h key
             = Some (h\<lparr>h_values := (h_values h)[hpos mix (h_size h) key j := NULL]\<rparr>)
           \<and> hcells (h\<lparr>h_values := (h_values h)[hpos mix (h_size h) key j := NULL]\<rparr>)
               = (hcells h)[hpos mix (h_size h) key j := Some (key, NULL)]
           \<and> oa_stop (hcells h) (hpos mix (h_size h) key) key j
           \<and> hcells h ! hpos mix (h_size h) key j \<noteq> None"
proof -
  from inv obtain m where m: "m \<le> 30" "h_size h = 2 ^ m"
    and len: "length (h_keys h) = 2 ^ m" "length (h_values h) = 2 ^ m"
    and oa: "oa_inv (hcells h) (hpos mix (2 ^ m))"
    and empty: "\<exists>i<length (hcells h). hcells h ! i = None"
    by (rule hash_invE)
  let ?p = "hpos mix (2 ^ m)"
  from oa_stop_exists [OF oa empty] obtain j where stop: "oa_stop (hcells h) (?p key) key j" ..
  have lt: "?p key j < 2 ^ m" by (simp add: hpos_less)
  have nth: "hcells h ! ?p key j
      = (if h_keys h ! ?p key j = NULL then None else Some (h_keys h ! ?p key j, h_values h ! ?p key j))"
    using len lt by (intro hcells_nth) simp_all
  from present obtain i where i: "i < 2 ^ m" "h_keys h ! i = key"
    by (auto simp: in_set_conv_nth len)
  with key len have "hcells h ! i = Some (key, h_values h ! i)" by (simp add: hcells_nth)
  with i len have "(key, h_values h ! i) \<in> oa_entries (hcells h)"
    by (auto simp: oa_entries_def hcells_def)
  then have "key \<in> fst ` oa_entries (hcells h)" by force
  with oa_stop_None [OF oa stop] have "hcells h ! ?p key j \<noteq> None" by blast
  with stop have at: "h_keys h ! ?p key j = key"
    unfolding oa_stop_def by (auto simp: nth split: if_splits)
  from m have m31: "m \<le> 31" by simp
  from hash_delete_stop [OF m(2) m31 len key stop] at
  have del: "hash_delete mix h key = Some (h\<lparr>h_values := (h_values h)[?p key j := NULL]\<rparr>)"
    by simp
  from hcells_update_value [OF len lt, where v = NULL] at key
  have cells: "hcells (h\<lparr>h_values := (h_values h)[?p key j := NULL]\<rparr>)
      = (hcells h)[?p key j := Some (key, NULL)]" by simp
  from del cells stop \<open>hcells h ! ?p key j \<noteq> None\<close> show ?thesis
    unfolding m(2) by blast
qed

lemma hash_delete_inv:
  assumes inv: "hash_inv mix h" and stop: "oa_stop (hcells h) (hpos mix (h_size h) key) key j"
    and some: "hcells h ! hpos mix (h_size h) key j \<noteq> None"
    and cells: "hcells h' = (hcells h)[hpos mix (h_size h) key j := Some (key, v)]"
    and same: "h_size h' = h_size h" "h_members h' = h_members h"
      "length (h_keys h') = length (h_keys h)" "length (h_values h') = length (h_values h)"
  shows "hash_inv mix h'"
    and "oa_entries (hcells h') = {e \<in> oa_entries (hcells h). fst e \<noteq> key} \<union> {(key, v)}"
proof -
  from inv obtain m where m: "m \<le> 30" "h_size h = 2 ^ m"
    and len: "length (h_keys h) = 2 ^ m" "length (h_values h) = 2 ^ m"
    and lc: "length (hcells h) = 2 ^ m"
    and oa: "oa_inv (hcells h) (hpos mix (2 ^ m))"
    and mem: "h_members h = oa_count (hcells h)" "h_members h \<le> 2 ^ m div 2"
    by (rule hash_invE)
  let ?p = "hpos mix (2 ^ m)"
  have lt: "?p key j < length (hcells h)" by (simp add: hpos_less lc)
  from stop have stop': "oa_stop (hcells h) (?p key) key j" by (simp add: m)
  from cells have cells': "hcells h' = (hcells h)[?p key j := Some (key, v)]" by (simp add: m)
  from oa_inv_insert [OF oa stop'] have oa': "oa_inv (hcells h') (hpos mix (2 ^ m))"
    by (simp add: cells')
  from oa_count_update [OF lt] some have "oa_count (hcells h') = oa_count (hcells h)"
    by (simp add: cells' m)
  with m len mem oa' same show "hash_inv mix h'"
    unfolding hash_inv_def by auto
  from oa_entries_insert [OF oa stop']
  show "oa_entries (hcells h') = {e \<in> oa_entries (hcells h). fst e \<noteq> key} \<union> {(key, v)}"
    by (simp add: cells')
qed

lemma hash_delete_frame_inv:
  assumes inv: "hash_inv mix h" and key: "key \<noteq> NULL" and present: "key \<in> set (h_keys h)"
  shows "\<exists>h'. hash_delete mix h key = Some h'
           \<and> hash_inv mix h'
           \<and> hash_get mix h' key = Some NULL
           \<and> hash_members h' = hash_members h
           \<and> h_size h' = h_size h
           \<and> h_keys h' = h_keys h
           \<and> (\<forall>k. k \<noteq> NULL \<and> k \<noteq> key \<longrightarrow> hash_get mix h' k = hash_get mix h k)
           \<and> (\<forall>now now' v. hash_iter h' now \<noteq> Some (True, now', Some (key, v)))"
proof -
  from hash_delete_spec [OF assms] obtain j where
    del: "hash_delete mix h key
             = Some (h\<lparr>h_values := (h_values h)[hpos mix (h_size h) key j := NULL]\<rparr>)"
    and cells: "hcells (h\<lparr>h_values := (h_values h)[hpos mix (h_size h) key j := NULL]\<rparr>)
               = (hcells h)[hpos mix (h_size h) key j := Some (key, NULL)]"
    and stop: "oa_stop (hcells h) (hpos mix (h_size h) key) key j"
    and some: "hcells h ! hpos mix (h_size h) key j \<noteq> None"
    by blast
  define h' where "h' = h\<lparr>h_values := (h_values h)[hpos mix (h_size h) key j := NULL]\<rparr>"
  have same: "h_size h' = h_size h" "h_members h' = h_members h"
    "length (h_keys h') = length (h_keys h)" "length (h_values h') = length (h_values h)"
    "h_keys h' = h_keys h"
    by (simp_all add: h'_def)
  from cells have cells': "hcells h' = (hcells h)[hpos mix (h_size h) key j := Some (key, NULL)]"
    by (simp add: h'_def)
  note r = hash_delete_inv [OF inv stop some cells' same(1-4)]
  from r(2) have here: "(key, NULL) \<in> oa_entries (hcells h')" by simp
  then have get: "hash_get mix h' key = Some NULL" by (rule hash_get_present [OF r(1)])
  have others: "hash_get mix h' k = hash_get mix h k" if "k \<noteq> NULL" "k \<noteq> key" for k
    using inv r(1) that(1)
  proof (rule hash_get_cong)
    fix v show "((k, v) \<in> oa_entries (hcells h')) = ((k, v) \<in> oa_entries (hcells h))"
      using that(2) by (simp add: r(2))
  qed
  have iter: "hash_iter h' now \<noteq> Some (True, now', Some (key, v))" for now now' v
  proof
    assume "hash_iter h' now = Some (True, now', Some (key, v))"
    then have "hash_iter_loop h' now = Some (True, now', Some (key, v))"
      by (simp add: hash_iter_def split: if_splits)
    from hash_iter_loop_entry [OF this] obtain i where i: "i < length (h_keys h')"
      "i < length (h_values h')" "h_keys h' ! i = key" "h_values h' ! i = v" "v \<noteq> NULL"
      by blast
    with key have "hcells h' ! i = Some (key, v)" by (simp add: hcells_nth)
    with i have "(key, v) \<in> oa_entries (hcells h')" by (auto simp: oa_entries_def hcells_def)
    with r(1) here have "v = NULL"
      by (elim hash_invE) (rule oa_entries_functional)
    with i show False by simp
  qed
  from del get others iter r(1) same show ?thesis
    unfolding h'_def [symmetric] hash_members_def by blast
qed

lemma oa_count_card:
  assumes inv: "oa_inv cs p"
  shows "oa_count cs = card (oa_entries cs)"
proof -
  let ?I = "{i. i < length cs \<and> cs ! i \<noteq> None}"
  have "oa_count cs = card ?I" by (simp add: oa_count_def length_filter_conv_card)
  moreover have "oa_entries cs = (\<lambda>i. the (cs ! i)) ` ?I"
    by (force simp: oa_entries_def image_iff)
  moreover have "inj_on (\<lambda>i. the (cs ! i)) ?I"
  proof (rule inj_onI)
    fix i i' assume i: "i \<in> ?I" and i': "i' \<in> ?I" and eq: "the (cs ! i) = the (cs ! i')"
    from i obtain k v where c: "cs ! i = Some (k, v)" by auto
    with i' eq have c': "cs ! i' = Some (k, v)" by auto
    from i i' have lt: "i < length cs" "i' < length cs" by simp_all
    from oa_stop_present [OF inv lt(1) c] oa_stop_present [OF inv lt(2) c']
      oa_stop_unique [of cs "p k" k]
    show "i = i'" by blast
  qed
  ultimately show ?thesis by (simp add: card_image)
qed

lemma hash_inv_wf: "hash_inv mix h = (\<exists>m\<le>30. hash_wf mix h m \<and> h_members h \<le> h_size h div 2)"
  unfolding hash_inv_def hash_wf_def by auto

lemma hash_put_unfold:
  "hash_put mix h key val =
     Option.bind (if h_size h div 2 \<le> h_members h then hash_grow mix h else Some h)
       (\<lambda>h. Option.bind (hash_slot mix (h_size h) key)
          (\<lambda>slot. hash_put_loop h key val slot 1))"
  by (subst hash_put.simps) (simp add: hash_grow_def)

lemma hash_put_step:
  assumes wf: "hash_wf mix h m" and m: "m \<le> 31" and load: "h_members h < h_size h div 2"
    and key: "key \<noteq> NULL"
  shows "\<exists>found h'. hash_put mix h key val = Some (found, h') \<and> hash_wf mix h' m
           \<and> oa_entries (hcells h')
               = {e \<in> oa_entries (hcells h). fst e \<noteq> key} \<union> {(key, val)}
           \<and> h_members h' \<le> h_members h + 1
           \<and> found = (key \<in> fst ` oa_entries (hcells h))"
proof -
  from wf have sz: "h_size h = 2 ^ m"
    and len: "length (h_keys h) = 2 ^ m" "length (h_values h) = 2 ^ m"
    and mem: "h_members h = oa_count (hcells h)"
    and oa: "oa_inv (hcells h) (hpos mix (2 ^ m))"
    unfolding hash_wf_def by simp_all
  let ?p = "hpos mix (2 ^ m)"
  from len have lc: "length (hcells h) = 2 ^ m" by (simp add: hcells_def)
  from load sz have "h_members h < 2 ^ m" by simp
  with mem lc have "oa_count (hcells h) < length (hcells h)" by simp
  then have empty: "\<exists>i<length (hcells h). hcells h ! i = None" by (rule oa_count_empty)
  from oa_stop_exists [OF oa empty] obtain j where stop: "oa_stop (hcells h) (?p key) key j" ..
  have lt: "?p key j < 2 ^ m" by (simp add: hpos_less)
  have nth: "hcells h ! ?p key j
      = (if h_keys h ! ?p key j = NULL then None else Some (h_keys h ! ?p key j, h_values h ! ?p key j))"
    using len lt by (intro hcells_nth) simp_all
  from stop have at: "hcells h ! ?p key j = None \<or> (\<exists>v'. hcells h ! ?p key j = Some (key, v'))"
    unfolding oa_stop_def by blast
  have "(2::nat) ^ m \<le> 2 ^ 31" using m by (intro power_increasing) simp_all
  with load sz have nowrap: "(h_members h + 1) mod 2 ^ 32 = h_members h + 1" by simp
  define h' where "h' = (if h_keys h ! ?p key j = key
           then h\<lparr>h_values := (h_values h)[?p key j := val]\<rparr>
           else h\<lparr>h_values := (h_values h)[?p key j := val],
                           h_keys := (h_keys h)[?p key j := key],
                           h_members := h_members h + 1\<rparr>)"
  have put: "hash_put mix h key val = Some (h_keys h ! ?p key j = key, h')"
    using load hash_put_loop_stop [OF sz m len key stop, of val, unfolded nowrap]
    by (simp add: hash_put_unfold hash_slot_pow2 [OF m key] sz hpos_def [of mix "2 ^ m" key 0]
        h'_def not_le [symmetric])
  have same: "h_size h' = 2 ^ m" "length (h_keys h') = 2 ^ m" "length (h_values h') = 2 ^ m"
    by (simp_all add: h'_def sz len)
  have cells: "hcells h' = (hcells h)[?p key j := Some (key, val)]"
  proof (cases "h_keys h ! ?p key j = key")
    case True
    with hcells_update_value [OF len lt, where v = val] key show ?thesis by (simp add: h'_def)
  next
    case False
    have "hcells h' = hcells (h\<lparr>h_values := (h_values h)[?p key j := val],
                           h_keys := (h_keys h)[?p key j := key]\<rparr>)"
      using False by (simp add: h'_def hcells_def)
    with hcells_update [OF len lt, where v = val and k = key] key show ?thesis by simp
  qed
  have found: "(h_keys h ! ?p key j = key) = (key \<in> fst ` oa_entries (hcells h))"
  proof
    assume "h_keys h ! ?p key j = key"
    with nth key have "hcells h ! ?p key j = Some (key, h_values h ! ?p key j)" by simp
    from oa_stop_Some [OF oa this] show "key \<in> fst ` oa_entries (hcells h)" by force
  next
    assume e: "key \<in> fst ` oa_entries (hcells h)"
    with oa_stop_None [OF oa stop] have "hcells h ! ?p key j \<noteq> None" by blast
    with at show "h_keys h ! ?p key j = key" by (auto simp: nth split: if_splits)
  qed
  have cnt: "h_members h' = oa_count (hcells h')"
  proof -
    from lt lc have "?p key j < length (hcells h)" by simp
    from oa_count_update [OF this, of "(key, val)"]
    have "oa_count (hcells h') = (if hcells h ! ?p key j = None then Suc (oa_count (hcells h))
        else oa_count (hcells h))" by (simp add: cells)
    moreover have "(hcells h ! ?p key j = None) = (h_keys h ! ?p key j \<noteq> key)"
      using at key by (auto simp: nth split: if_splits)
    ultimately show ?thesis by (simp add: h'_def mem)
  qed
  from oa_inv_insert [OF oa stop] have oa': "oa_inv (hcells h') ?p" by (simp add: cells)
  from same cnt oa' have wf': "hash_wf mix h' m" by (simp add: hash_wf_def)
  from oa_entries_insert [OF oa stop]
  have ent: "oa_entries (hcells h') = {e \<in> oa_entries (hcells h). fst e \<noteq> key} \<union> {(key, val)}"
    by (simp add: cells)
  have "h_members h' \<le> h_members h + 1" by (simp add: h'_def)
  with put wf' ent found show ?thesis by blast
qed

lemma hash_rebuild_spec:
  assumes "hash_wf mix h m" and "m \<le> 31"
    and "h_members h + length is \<le> h_size h div 2"
    and "\<forall>i\<in>set is. i < length old_keys \<and> i < length old_values"
    and "distinct is"
    and "\<forall>i<length old_keys. \<forall>i'<length old_keys.
           old_keys ! i = old_keys ! i' \<longrightarrow> old_keys ! i \<noteq> NULL \<longrightarrow> i = i'"
    and "\<forall>i\<in>set is. old_keys ! i \<notin> fst ` oa_entries (hcells h)"
  shows "\<exists>h'. hash_rebuild (hash_put mix) old_keys old_values is h = Some h'
           \<and> hash_wf mix h' m
           \<and> oa_entries (hcells h') = oa_entries (hcells h)
               \<union> {(old_keys ! i, old_values ! i) | i. i \<in> set is \<and> old_keys ! i \<noteq> NULL}"
  using assms
proof (induction "is" arbitrary: h)
  case Nil
  then show ?case by simp
next
  case (Cons i "is")
  from Cons.prems(4) have i: "i < length old_keys" "i < length old_values"
    and rest: "\<forall>i\<in>set is. i < length old_keys \<and> i < length old_values" by simp_all
  from Cons.prems(5) have dist: "i \<notin> set is" "distinct is" by simp_all
  from Cons.prems(1) have sz: "h_size h = 2 ^ m" by (simp add: hash_wf_def)
  show ?case
  proof (cases "old_keys ! i = NULL")
    case True
    from Cons.prems(3) have "h_members h + length is \<le> h_size h div 2" by simp
    from Cons.IH [OF Cons.prems(1,2) this rest dist(2) Cons.prems(6)] Cons.prems(7)
    obtain h' where h': "hash_rebuild (hash_put mix) old_keys old_values is h = Some h'"
      "hash_wf mix h' m"
      "oa_entries (hcells h') = oa_entries (hcells h)
         \<union> {(old_keys ! i, old_values ! i) | i. i \<in> set is \<and> old_keys ! i \<noteq> NULL}"
      by auto
    have "{(old_keys ! x, old_values ! x) | x. x \<in> set (i # is) \<and> old_keys ! x \<noteq> NULL}
        = {(old_keys ! x, old_values ! x) | x. x \<in> set is \<and> old_keys ! x \<noteq> NULL}"
      using True by auto
    with h' True i show ?thesis by simp
  next
    case False
    from Cons.prems(3) have load: "h_members h < h_size h div 2" by simp
    from hash_put_step [OF Cons.prems(1,2) load False, of "old_values ! i"]
    obtain found h1 where put: "hash_put mix h (old_keys ! i) (old_values ! i) = Some (found, h1)"
      and wf1: "hash_wf mix h1 m"
      and ent1: "oa_entries (hcells h1)
          = {e \<in> oa_entries (hcells h). fst e \<noteq> old_keys ! i} \<union> {(old_keys ! i, old_values ! i)}"
      and mem1: "h_members h1 \<le> h_members h + 1"
      by blast
    from Cons.prems(7) have "old_keys ! i \<notin> fst ` oa_entries (hcells h)" by simp
    then have "{e \<in> oa_entries (hcells h). fst e \<noteq> old_keys ! i} = oa_entries (hcells h)"
      by force
    with ent1 have ent1': "oa_entries (hcells h1)
        = oa_entries (hcells h) \<union> {(old_keys ! i, old_values ! i)}" by simp
    from wf1 sz have sz1: "h_size h1 = h_size h" by (simp add: hash_wf_def)
    from Cons.prems(3) mem1 sz1 have load1: "h_members h1 + length is \<le> h_size h1 div 2"
      by simp
    have fresh: "\<forall>x\<in>set is. old_keys ! x \<notin> fst ` oa_entries (hcells h1)"
    proof
      fix x assume x: "x \<in> set is"
      with Cons.prems(7) have a: "old_keys ! x \<notin> fst ` oa_entries (hcells h)" by simp
      have "old_keys ! x \<noteq> old_keys ! i"
      proof
        assume "old_keys ! x = old_keys ! i"
        with Cons.prems(6) i(1) rest x False have "x = i" by metis
        with x dist(1) show False by simp
      qed
      with a show "old_keys ! x \<notin> fst ` oa_entries (hcells h1)" by (auto simp: ent1')
    qed
    from Cons.IH [OF wf1 Cons.prems(2) load1 rest dist(2) Cons.prems(6) fresh]
    obtain h' where h': "hash_rebuild (hash_put mix) old_keys old_values is h1 = Some h'"
      "hash_wf mix h' m"
      "oa_entries (hcells h') = oa_entries (hcells h1)
         \<union> {(old_keys ! i, old_values ! i) | i. i \<in> set is \<and> old_keys ! i \<noteq> NULL}"
      by auto
    have "oa_entries (hcells h') = oa_entries (hcells h)
        \<union> {(old_keys ! x, old_values ! x) | x. x \<in> set (i # is) \<and> old_keys ! x \<noteq> NULL}"
      using False by (auto simp: h'(3) ent1')
    with h'(1,2) put False i show ?thesis by simp
  qed
qed

lemma oa_key_unique:
  assumes inv: "oa_inv cs p" and "i < length cs" and "i' < length cs"
    and "cs ! i = Some (k, v)" and "cs ! i' = Some (k, v')"
  shows "i = i'"
  using oa_stop_present [OF inv assms(2,4)] oa_stop_present [OF inv assms(3,5)]
    oa_stop_unique [of cs "p k" k]
  by blast

lemma oa_inv_empty:
  assumes "\<forall>k j. p k j < n" and "\<forall>k. \<forall>i<n. \<exists>j. p k j = i"
  shows "oa_inv (replicate n None) p"
  using assms unfolding oa_inv_def by simp

lemma oa_count_replicate: "oa_count (replicate n None) = 0"
  by (simp add: oa_count_def)

lemma oa_entries_replicate: "oa_entries (replicate n None) = {}"
  by (simp add: oa_entries_def)

lemma hcells_empty:
  "hcells (h\<lparr>h_size := sz, h_values := replicate n NULL, h_keys := replicate n NULL,
             h_members := c\<rparr>) = replicate n None"
  by (simp add: hcells_def zip_replicate)

lemma hash_entries_eq:
  assumes "length (h_keys h) = n" and "length (h_values h) = n"
  shows "oa_entries (hcells h)
           = {(h_keys h ! i, h_values h ! i) | i. i \<in> set [0 ..< n] \<and> h_keys h ! i \<noteq> NULL}"
  using assms by (auto simp: oa_entries_def hcells_def split: if_splits)

lemma hash_grow_spec:
  assumes inv: "hash_inv mix h" and small: "h_size h < 2 ^ 30"
  shows "\<exists>h1. hash_grow mix h = Some h1 \<and> h_size h1 = 2 * h_size h
           \<and> (\<exists>m\<le>30. hash_wf mix h1 m)
           \<and> oa_entries (hcells h1) = oa_entries (hcells h)
           \<and> h_members h1 = h_members h"
proof -
  from inv obtain m where m: "m \<le> 30" "h_size h = 2 ^ m"
    and len: "length (h_keys h) = 2 ^ m" "length (h_values h) = 2 ^ m"
    and lc: "length (hcells h) = 2 ^ m"
    and oa: "oa_inv (hcells h) (hpos mix (2 ^ m))"
    and mem: "h_members h = oa_count (hcells h)" "h_members h \<le> 2 ^ m div 2"
    by (rule hash_invE)
  from small m have "(2::nat) ^ m < 2 ^ 30" by simp
  then have m30: "m < 30" by (rule power_less_imp_less_exp [rotated]) simp
  then have "Suc m \<le> 30" by simp
  then have b30: "(2::nat) ^ Suc m \<le> 2 ^ 30" by (intro power_increasing) simp_all
  then have b: "(2::nat) * 2 ^ m \<le> 1073741824" by simp
  define h0 where "h0 = h\<lparr>h_size := 2 ^ Suc m, h_values := replicate (2 ^ Suc m) NULL,
     h_keys := replicate (2 ^ Suc m) NULL, h_members := 0\<rparr>"
  have grow: "hash_grow mix h
      = hash_rebuild (hash_put mix) (h_keys h) (h_values h) [0 ..< 2 ^ m] h0"
    using b by (simp add: hash_grow_def Let_def m hash_alloc_def int_of_unsigned_def h0_def
        nat_power_eq mult.commute [of "2 ^ m" 2])
  have cells0: "hcells h0 = replicate (2 ^ Suc m) None"
    unfolding h0_def by (rule hcells_empty)
  have "oa_inv (replicate (2 ^ Suc m) None) (hpos mix (2 ^ Suc m))"
    using hpos_range_cover [of mix "Suc m"] by (intro oa_inv_empty) blast+
  then have wf0: "hash_wf mix h0 (Suc m)"
    unfolding hash_wf_def cells0 by (simp add: h0_def oa_count_replicate)
  have m31: "Suc m \<le> 31" using m30 by simp
  have load0: "h_members h0 + length [0 ..< (2::nat) ^ m] \<le> h_size h0 div 2"
    by (simp add: h0_def)
  have range: "\<forall>i\<in>set [0 ..< (2::nat) ^ m]. i < length (h_keys h) \<and> i < length (h_values h)"
    by (simp add: len)
  have uniq: "\<forall>i<length (h_keys h). \<forall>i'<length (h_keys h).
           h_keys h ! i = h_keys h ! i' \<longrightarrow> h_keys h ! i \<noteq> NULL \<longrightarrow> i = i'"
  proof (intro allI impI)
    fix i i' assume i: "i < length (h_keys h)" "i' < length (h_keys h)"
      and eq: "h_keys h ! i = h_keys h ! i'" and nn: "h_keys h ! i \<noteq> NULL"
    from i len nn have "hcells h ! i = Some (h_keys h ! i, h_values h ! i)"
      by (simp add: hcells_nth)
    moreover from i len nn eq have "hcells h ! i' = Some (h_keys h ! i, h_values h ! i')"
      by (simp add: hcells_nth)
    moreover from i len lc have "i < length (hcells h)" "i' < length (hcells h)" by simp_all
    ultimately show "i = i'" using oa by (intro oa_key_unique [OF oa])
  qed
  have fresh: "\<forall>i\<in>set [0 ..< (2::nat) ^ m]. h_keys h ! i \<notin> fst ` oa_entries (hcells h0)"
    by (simp add: cells0 oa_entries_replicate)
  from hash_rebuild_spec [OF wf0 m31 load0 range distinct_upt uniq fresh]
  obtain h1 where h1: "hash_rebuild (hash_put mix) (h_keys h) (h_values h) [0 ..< 2 ^ m] h0 = Some h1"
    "hash_wf mix h1 (Suc m)"
    "oa_entries (hcells h1) = oa_entries (hcells h0)
       \<union> {(h_keys h ! i, h_values h ! i) | i. i \<in> set [0 ..< 2 ^ m] \<and> h_keys h ! i \<noteq> NULL}"
    by blast
  from h1(3) have ent: "oa_entries (hcells h1) = oa_entries (hcells h)"
    by (simp only: cells0 oa_entries_replicate hash_entries_eq [OF len] Un_empty_left)
  from h1(2) have oa1: "oa_inv (hcells h1) (hpos mix (2 ^ Suc m))"
    and mem1: "h_members h1 = oa_count (hcells h1)" and sz1: "h_size h1 = 2 ^ Suc m"
    by (simp_all add: hash_wf_def)
  from mem1 mem(1) ent have "h_members h1 = h_members h"
    by (simp add: oa_count_card [OF oa1] oa_count_card [OF oa])
  moreover from h1(2) \<open>Suc m \<le> 30\<close> have "\<exists>m\<le>30. hash_wf mix h1 m" by blast
  moreover from sz1 m(2) have "h_size h1 = 2 * h_size h" by simp
  ultimately show ?thesis using grow h1(1) ent by simp
qed

lemma hash_put_spec:
  assumes inv: "hash_inv mix h" and key: "key \<noteq> NULL" and small: "h_size h < 2 ^ 30"
  shows "\<exists>found h'. hash_put mix h key val = Some (found, h') \<and> hash_inv mix h'
           \<and> h_size h' = (if h_size h div 2 \<le> h_members h then 2 * h_size h else h_size h)
           \<and> oa_entries (hcells h')
               = {e \<in> oa_entries (hcells h). fst e \<noteq> key} \<union> {(key, val)}
           \<and> found = (key \<in> fst ` oa_entries (hcells h))"
proof (cases "h_size h div 2 \<le> h_members h")
  case True
  from inv have half: "h_members h \<le> h_size h div 2" and pos: "0 < h_size h"
    by (auto simp: hash_inv_def)
  from hash_grow_spec [OF inv small] obtain h1 m where h1: "hash_grow mix h = Some h1"
    "h_size h1 = 2 * h_size h" "m \<le> 30" "hash_wf mix h1 m"
    "oa_entries (hcells h1) = oa_entries (hcells h)" "h_members h1 = h_members h"
    by blast
  from h1(2,6) half pos have load1: "h_members h1 < h_size h1 div 2" by simp
  from h1(3) have m31: "m \<le> 31" by simp
  have "hash_put mix h key val = hash_put mix h1 key val"
    using True load1 h1(1) by (simp add: hash_put_unfold [of mix h] hash_put_unfold [of mix h1])
  moreover from hash_put_step [OF h1(4) m31 load1 key, of val]
  obtain found h' where put: "hash_put mix h1 key val = Some (found, h')" "hash_wf mix h' m"
    "oa_entries (hcells h') = {e \<in> oa_entries (hcells h1). fst e \<noteq> key} \<union> {(key, val)}"
    "h_members h' \<le> h_members h1 + 1" "found = (key \<in> fst ` oa_entries (hcells h1))"
    by blast
  moreover from put(2) h1(4) have sz': "h_size h' = h_size h1" by (simp add: hash_wf_def)
  moreover from put(4) h1(2,6) half pos sz' have "h_members h' \<le> h_size h' div 2" by simp
  with put(2) h1(3) have "hash_inv mix h'" unfolding hash_inv_wf by blast
  ultimately show ?thesis using True h1(2,5) by auto
next
  case False
  then have load: "h_members h < h_size h div 2" by simp
  from inv obtain m where m: "m \<le> 30" "hash_wf mix h m" unfolding hash_inv_wf by blast
  then have m31: "m \<le> 31" by simp
  from hash_put_step [OF m(2) m31 load key, of val]
  obtain found h' where put: "hash_put mix h key val = Some (found, h')" "hash_wf mix h' m"
    "oa_entries (hcells h') = {e \<in> oa_entries (hcells h). fst e \<noteq> key} \<union> {(key, val)}"
    "h_members h' \<le> h_members h + 1" "found = (key \<in> fst ` oa_entries (hcells h))"
    by blast
  from put(2) m(2) have sz': "h_size h' = h_size h" by (simp add: hash_wf_def)
  with put(4) load have "h_members h' \<le> h_size h' div 2" by simp
  with put(2) m(1) have "hash_inv mix h'" unfolding hash_inv_wf by blast
  with put sz' False show ?thesis by auto
qed

lemma hash_put_get:
  assumes inv: "hash_inv mix h" and inv': "hash_inv mix h'" and key: "key \<noteq> NULL"
    and ent: "oa_entries (hcells h') = {e \<in> oa_entries (hcells h). fst e \<noteq> key} \<union> {(key, val)}"
  shows "hash_get mix h' key = Some val"
    and "\<forall>k. k \<noteq> NULL \<and> k \<noteq> key \<longrightarrow> hash_get mix h' k = hash_get mix h k"
proof -
  from ent have "(key, val) \<in> oa_entries (hcells h')" by simp
  then show "hash_get mix h' key = Some val" by (rule hash_get_present [OF inv'])
  show "\<forall>k. k \<noteq> NULL \<and> k \<noteq> key \<longrightarrow> hash_get mix h' k = hash_get mix h k"
  proof (intro allI impI)
    fix k assume k: "k \<noteq> NULL \<and> k \<noteq> key"
    then have "((k, v) \<in> oa_entries (hcells h')) = ((k, v) \<in> oa_entries (hcells h))" for v
      by (simp add: ent)
    with inv inv' k show "hash_get mix h' k = hash_get mix h k"
      by (intro hash_get_cong) simp_all
  qed
qed

lemma hash_new_inv:
  assumes "hash_new sz = Some h"
  shows "h_keys h = replicate (h_size h) NULL" and "h_values h = replicate (h_size h) NULL"
    and "h_members h = 0" and "h_size h = unat (next_power_of_2 sz)"
  using assms by (auto simp: hash_new_def hash_alloc_def Let_def split: if_splits)

lemma hash_inv_empty:
  assumes "m \<le> 30"
  shows "hash_inv mix \<lparr>h_size = 2 ^ m, h_members = 0, h_values = replicate (2 ^ m) NULL,
     h_keys = replicate (2 ^ m) NULL\<rparr>"
proof -
  have "oa_inv (replicate (2 ^ m) None) (hpos mix (2 ^ m))"
    using hpos_range_cover [of mix m] by (intro oa_inv_empty) blast+
  with assms show ?thesis
    unfolding hash_inv_def by (auto simp: hcells_def zip_replicate oa_count_replicate)
qed

lemma hash_put_NULL: "hash_put mix h NULL val = None"
  by (simp add: hash_put_unfold hash_slot_def Option.bind_eq_None_conv)

lemma hash_grow_full:
  assumes "h_size h = 2 ^ 30"
  shows "hash_grow mix h = None"
proof -
  have "hash_alloc ((h_size h * 2) mod 2 ^ 32) = None"
    using assms by (simp add: hash_alloc_def)
  then show ?thesis
    unfolding hash_grow_def Let_def by (simp only: Option.bind.simps)
qed

lemma hash_put_inv:
  assumes inv: "hash_inv mix h" and put: "hash_put mix h key val = Some (found, h')"
  shows "hash_inv mix h'"
proof -
  from put have key: "key \<noteq> NULL" by (auto simp: hash_put_NULL)
  show ?thesis
  proof (cases "h_size h < 2 ^ 30")
    case True
    from hash_put_spec [OF inv key True, of val] obtain found1 h1
      where "hash_put mix h key val = Some (found1, h1)" "hash_inv mix h1" by blast
    with put show ?thesis by simp
  next
    case False
    from inv obtain m where m: "m \<le> 30" "hash_wf mix h m" and half: "h_members h \<le> h_size h div 2"
      unfolding hash_inv_wf by blast
    from m have sz: "h_size h = 2 ^ m" by (simp add: hash_wf_def)
    from m(1) have "(2 :: nat) ^ m \<le> 2 ^ 30" by (intro power_increasing) simp_all
    with False sz have big: "h_size h = 2 ^ 30" by simp
    have load: "h_members h < h_size h div 2"
    proof (rule ccontr)
      assume "\<not> h_members h < h_size h div 2"
      with hash_grow_full [OF big, of mix] have "hash_put mix h key val = None"
        by (simp add: hash_put_unfold)
      with put show False by simp
    qed
    from m(1) have m31: "m \<le> 31" by simp
    from hash_put_step [OF m(2) m31 load key, of val] obtain found1 h1
      where "hash_put mix h key val = Some (found1, h1)" "hash_wf mix h1 m"
        "h_members h1 \<le> h_members h + 1" by blast
    with put have wf': "hash_wf mix h' m" and mem': "h_members h' \<le> h_members h + 1"
      by simp_all
    from wf' sz have "h_size h' = h_size h" by (simp add: hash_wf_def)
    with mem' load have "h_members h' \<le> h_size h' div 2" by simp
    with wf' m(1) show ?thesis unfolding hash_inv_wf by blast
  qed
qed

lemma hash_delete_NULL: "hash_delete mix h NULL = None"
  by (simp add: hash_delete_def hash_slot_def)

lemma hash_delete_keeps_inv:
  assumes inv: "hash_inv mix h" and del: "hash_delete mix h key = Some h'"
  shows "hash_inv mix h'"
proof -
  from del have key: "key \<noteq> NULL" by (auto simp: hash_delete_NULL)
  show ?thesis
  proof (cases "key \<in> set (h_keys h)")
    case True
    from hash_delete_spec [OF inv key True] obtain j where
      d: "hash_delete mix h key
             = Some (h\<lparr>h_values := (h_values h)[hpos mix (h_size h) key j := NULL]\<rparr>)"
      and cells: "hcells (h\<lparr>h_values := (h_values h)[hpos mix (h_size h) key j := NULL]\<rparr>)
               = (hcells h)[hpos mix (h_size h) key j := Some (key, NULL)]"
      and stop: "oa_stop (hcells h) (hpos mix (h_size h) key) key j"
      and some: "hcells h ! hpos mix (h_size h) key j \<noteq> None"
      by blast
    from d del have h': "h' = h\<lparr>h_values := (h_values h)[hpos mix (h_size h) key j := NULL]\<rparr>"
      by simp
    show ?thesis
      by (rule hash_delete_inv(1) [OF inv stop some]) (simp_all add: h' cells)
  next
    case False
    from inv obtain m where m: "m \<le> 30" "h_size h = 2 ^ m"
      and len: "length (h_keys h) = 2 ^ m" "length (h_values h) = 2 ^ m"
      and oa: "oa_inv (hcells h) (hpos mix (2 ^ m))"
      and empty: "\<exists>i<length (hcells h). hcells h ! i = None"
      by (rule hash_invE)
    from oa_stop_exists [OF oa empty] obtain j
      where stop: "oa_stop (hcells h) (hpos mix (2 ^ m) key) key j" ..
    from m have m31: "m \<le> 31" by simp
    have "hpos mix (2 ^ m) key j < length (h_keys h)" by (simp add: len hpos_less)
    then have "h_keys h ! hpos mix (2 ^ m) key j \<in> set (h_keys h)" by (rule nth_mem)
    with False have "h_keys h ! hpos mix (2 ^ m) key j \<noteq> key" by auto
    with hash_delete_stop [OF m(2) m31 len key stop] del have "h' = h" by simp
    with inv show ?thesis by simp
  qed
qed

lemma hash_new_keeps_inv:
  assumes new: "hash_new sz = Some h" and pow: "h_size h = 2 ^ m"
  shows "hash_inv mix h"
proof -
  from new have alloc: "h_size h * 2 < 2 ^ 32"
    and h: "h = \<lparr>h_size = h_size h, h_members = 0, h_values = replicate (h_size h) NULL,
       h_keys = replicate (h_size h) NULL\<rparr>"
    by (auto simp: hash_new_def hash_alloc_def Let_def split: if_splits)
  from alloc pow have "(2 :: nat) ^ m < 2 ^ 31" by simp
  then have "m < 31" by (rule power_less_imp_less_exp [rotated]) simp
  then have "m \<le> 30" by simp
  from hash_inv_empty [OF this, of mix]
  have "hash_inv mix \<lparr>h_size = h_size h, h_members = 0, h_values = replicate (h_size h) NULL,
       h_keys = replicate (h_size h) NULL\<rparr>" by (simp only: pow)
  then show ?thesis by (subst h)
qed

lemma hash_reach_inv: "hash_reach mix h \<Longrightarrow> hash_inv mix h"
proof (induction rule: hash_reach.induct)
  case (new sz h m)
  then show ?case by (rule hash_new_keeps_inv)
next
  case (put h key val found h')
  from put.IH put.hyps(2) show ?case by (rule hash_put_inv)
next
  case (delete h key h')
  from delete.IH delete.hyps(2) show ?case by (rule hash_delete_keeps_inv)
qed

section \<open>Errors, hints and the error count\<close>

lemma show_hint_inside: "inside s \<Longrightarrow> diag_exec Show_hint s = Some s"
  by (subst diag_exec.simps) simp

definition note_result :: "int \<Rightarrow> loc \<Rightarrow> string \<Rightarrow> diag \<Rightarrow> diag" where
  "note_result u loc strp s =
     (if u \<noteq> 0 then (call_error_fn strp (Some loc) s)\<lparr>n_errors := n_errors s + 1\<rparr>
      else msg_at Notef loc strp s)"

lemma note_at_inside:
  assumes "inside s" and "opt_get_int ''unit-test'' s = Some u"
  shows "diag_exec (Note_at loc strp) s = Some (note_result u loc strp s)"
proof -
  let ?s1 = "if u \<noteq> 0 then call_error_fn strp (Some loc) s else msg_at Notef loc strp s"
  have c: "catch_in_unit_test Notef loc strp s = Some ?s1"
    using assms by (simp add: catch_in_unit_test_def)
  have i: "inside ?s1" using assms by (simp add: call_error_fn_def msg_at_def)
  have o: "opt_get_int ''unit-test'' ?s1 = Some u"
    using assms by (simp add: opt_get_int_def call_error_fn_def msg_at_def)
  show ?thesis
    by (subst diag_exec.simps)
       (simp add: c show_hint_inside [OF i] o note_result_def call_error_fn_def msg_at_def)
qed

lemma hint_func_inside:
  assumes "inside s" and "opt_get_int ''unit-test'' s = Some u"
  shows "\<exists>s'. diag_exec (Hint_func h) s = Some s' \<and> hints s' = hints s \<and> inside s'
           \<and> opt_get_int ''unit-test'' s' = Some u \<and> error_fn s' = error_fn s
           \<and> n_errors s' = n_errors s + (if u \<noteq> 0 \<and> is_default h then 1 else 0)
           \<and> (\<exists>ev. trace s' = trace s @ ev)"
proof (cases h)
  case (Default_hint str loc)
  have "diag_exec (Hint_func h) s = Some (note_result u loc str s)"
    by (subst diag_exec.simps) (simp add: Default_hint note_at_inside [OF assms])
  then show ?thesis using assms
    by (simp add: Default_hint note_result_def call_error_fn_def msg_at_def opt_get_int_def)
next
  case (User_hint fn ctx)
  have "diag_exec (Hint_func h) s = Some (s\<lparr>trace := trace s @ [Hint_fn_call fn ctx]\<rparr>)"
    by (subst diag_exec.simps) (simp add: User_hint)
  then show ?thesis using assms by (simp add: User_hint opt_get_int_def)
qed

lemma hint_loop_inside:
  assumes "inside s" and "opt_get_int ''unit-test'' s = Some u"
  shows "\<exists>s'. diag_exec Hint_loop s = Some s' \<and> hints s' = [] \<and> inside s'
           \<and> error_fn s' = error_fn s
           \<and> n_errors s' = n_errors s
                 + (if u \<noteq> 0 then of_nat (length (filter is_default (hints s))) else 0)
           \<and> (\<exists>ev. trace s' = trace s @ ev)"
  using assms
proof (induction "hints s" arbitrary: s)
  case Nil
  have "diag_exec Hint_loop s = Some s"
    using Nil(1) [symmetric] by (subst diag_exec.simps) simp
  then show ?case using Nil by simp
next
  case (Cons h hs)
  from hint_func_inside [OF Cons(3,4), of h] obtain s1 ev1 where
    s1: "diag_exec (Hint_func h) s = Some s1" "hints s1 = hints s" "inside s1"
      "opt_get_int ''unit-test'' s1 = Some u" "error_fn s1 = error_fn s"
      "n_errors s1 = n_errors s + (if u \<noteq> 0 \<and> is_default h then 1 else 0)"
      "trace s1 = trace s @ ev1"
    by blast
  let ?s2 = "s1\<lparr>hints := hs\<rparr>"
  have p: "pop_hint s1 = Some ?s2"
    using s1(2) Cons(2) [symmetric] by (simp add: pop_hint_def)
  have "hs = hints ?s2" "inside ?s2" "opt_get_int ''unit-test'' ?s2 = Some u"
    using s1 by (simp_all add: opt_get_int_def)
  from Cons(1) [OF this] obtain s' ev2 where
    s': "diag_exec Hint_loop ?s2 = Some s'" "hints s' = []" "inside s'"
      "error_fn s' = error_fn ?s2"
      "n_errors s' = n_errors ?s2
         + (if u \<noteq> 0 then of_nat (length (filter is_default (hints ?s2))) else 0)"
      "trace s' = trace ?s2 @ ev2"
    by blast
  have "diag_exec Hint_loop s = Some s'"
    using Cons(2) [symmetric] by (subst diag_exec.simps) (simp add: s1(1) p s'(1))
  moreover have "n_errors s' = n_errors s
      + (if u \<noteq> 0 then of_nat (length (filter is_default (hints s))) else 0)"
    using s'(5) s1(6) Cons(2) [symmetric] by simp
  moreover have "trace s' = trace s @ (ev1 @ ev2)"
    using s'(6) s1(7) by simp
  ultimately show ?case using s' s1 by auto
qed

text \<open>
  C7, as stated, fails: with the option \<open>unit-test\<close> set, every hint queued by \<open>hint_at\<close>
  is shown through \<open>note_at\<close>, which counts as an error in that mode. One error with one
  queued hint raises the count from 0 to 2.
\<close>

theorem error_at_counts_hints:
  "map_option error_count (error_at (Some 3) ''bad'' diag_test) = Some 2
   \<and> error_count diag_test = 0"
  by (simp add: error_at_def diag_exec.simps diag_test_def call_error_fn_def
      catch_in_unit_test_def opt_get_int_def pop_hint_def error_count_def)

text \<open>
  C7, amended: a call of \<open>error_at\<close> that is not made from inside a hint function, with
  the option \<open>unit-test\<close> set to some integer \<open>u\<close>, returns (it does not terminate the
  process), calls the installed error callback with the message, and flushes the whole hint
  chain, so that the queue is empty afterwards; the error count grows by one, and when
  \<open>u\<close> is not zero by one more for every flushed hint that \<open>hint_at\<close> had queued.
\<close>

theorem error_at_flushes_and_counts:
  assumes "\<not> inside s" and "opt_get_int ''unit-test'' s = Some u"
  shows "\<exists>s' ev. error_at loc strp s = Some s' \<and> hints s' = [] \<and> \<not> inside s'
           \<and> error_count s' = error_count s + 1
                 + (if u \<noteq> 0 then of_nat (length (filter is_default (hints s))) else 0)
           \<and> trace s' = trace s @
                 Error_fn_call (error_fn s) strp (case loc of None \<Rightarrow> LOC_INVALID | Some l \<Rightarrow> l)
                 # ev"
proof -
  let ?s0 = "call_error_fn strp loc s"
  let ?s1 = "?s0\<lparr>inside := True\<rparr>"
  have "inside ?s1" "opt_get_int ''unit-test'' ?s1 = Some u"
    using assms by (simp_all add: opt_get_int_def call_error_fn_def)
  from hint_loop_inside [OF this] obtain s2 ev where
    s2: "diag_exec Hint_loop ?s1 = Some s2" "hints s2 = []"
      "n_errors s2 = n_errors ?s1
         + (if u \<noteq> 0 then of_nat (length (filter is_default (hints ?s1))) else 0)"
      "trace s2 = trace ?s1 @ ev"
    by blast
  have "\<not> inside ?s0"
    using assms(1) by (simp add: call_error_fn_def)
  then have "diag_exec Show_hint ?s0 = Some (s2\<lparr>inside := False\<rparr>)"
    by (subst diag_exec.simps) (simp add: s2(1))
  then have "error_at loc strp s = Some (s2\<lparr>inside := False, n_errors := n_errors s2 + 1\<rparr>)"
    unfolding error_at_def by (subst diag_exec.simps) simp
  then show ?thesis
    using s2 by (simp add: error_count_def call_error_fn_def)
qed

theorem error_at_flushes_and_counts_witness:
  "\<not> inside diag_plain \<and> opt_get_int ''unit-test'' diag_plain = Some 0
   \<and> (\<exists>s'. error_at None ''bad'' diag_plain = Some s' \<and> hints s' = []
          \<and> error_count s' = 5)"
proof -
  have h: "\<not> inside diag_plain" "opt_get_int ''unit-test'' diag_plain = Some 0"
    by (simp_all add: diag_plain_def opt_get_int_def)
  from error_at_flushes_and_counts [OF h, of None "''bad''"]
  show ?thesis using h by (auto simp: error_count_def diag_plain_def)
qed

section \<open>Time records of the VCD dump\<close>
















section \<open>Deleting from the pointer table\<close>

lemma hash_new_4:
  "hash_new 4 = Some \<lparr>h_size = 4, h_members = 0, h_values = [0, 0, 0, 0], h_keys = [0, 0, 0, 0]\<rparr>"
proof -
  have "next_power_of_2 4 = 4"
    by (simp add: next_power_of_2_def Let_def)
  moreover have "replicate 4 (0 :: ptr) = [0, 0, 0, 0]" by (simp add: numeral_eq_Suc)
  ultimately show ?thesis by (simp add: hash_new_def hash_alloc_def NULL_def)
qed

lemma hash_slot_4_5: "hash_slot (\<lambda>x. x) 4 5 = Some 1"
proof -
  have "(5 :: ptr) \<noteq> NULL" by (simp add: NULL_def)
  then have "hash_slot (\<lambda>x. x) (2 ^ 2) 5 = Some (unat (5 :: ptr) mod 2 ^ 2)"
    by (intro hash_slot_pow2) simp_all
  then show ?thesis by simp
qed

lemma hash_example_reach: "hash_reach (\<lambda>x. x) hash_example"
proof -
  let ?e = "\<lparr>h_size = 4, h_members = 0, h_values = [0, 0, 0, 0], h_keys = [0, 0, 0, 0 :: ptr]\<rparr>"
  have "h_size ?e = 2 ^ 2" by simp
  with hash_new_4 have "hash_reach (\<lambda>x. x) ?e" by (rule hash_reach.new)
  moreover have "hash_put (\<lambda>x. x) ?e 5 7 = Some (False, hash_example)"
    by (simp add: hash_put_unfold hash_slot_4_5 hash_put_loop.simps NULL_def hash_example_def)
  ultimately show ?thesis by (rule hash_reach.put)
qed

text \<open>
  C9. Take any table made by \<open>hash_new\<close> (with a capacity that is a power of two) and any
  calls of \<open>hash_put\<close> and \<open>hash_delete\<close>, and a key that is in its key array. Then
  \<open>hash_delete\<close> returns, and afterwards \<open>hash_get\<close> of the key is \<open>NULL\<close>, while
  \<open>hash_members\<close>, the capacity and the whole key array are what they were (the slot
  keeps its key and counts toward the load factor), \<open>hash_get\<close> of every other key
  returns what it returned before, and \<open>hash_iter\<close>, from whatever position, never
  yields the key.
\<close>

theorem hash_delete_frame:
  assumes reach: "hash_reach mix h" and key: "key \<noteq> NULL" and present: "key \<in> set (h_keys h)"
  shows "\<exists>h'. hash_delete mix h key = Some h'
           \<and> hash_get mix h' key = Some NULL
           \<and> hash_members h' = hash_members h
           \<and> h_size h' = h_size h
           \<and> h_keys h' = h_keys h
           \<and> (\<forall>k. k \<noteq> NULL \<and> k \<noteq> key \<longrightarrow> hash_get mix h' k = hash_get mix h k)
           \<and> (\<forall>now now' v. hash_iter h' now \<noteq> Some (True, now', Some (key, v)))"
proof -
  from reach have "hash_inv mix h" by (rule hash_reach_inv)
  from hash_delete_frame_inv [OF this key present] show ?thesis by blast
qed

theorem hash_delete_frame_witness:
  "hash_delete (\<lambda>x. x) hash_example 5 = Some (hash_example\<lparr>h_values := [0, 0, 0, 0]\<rparr>)
   \<and> hash_get (\<lambda>x. x) hash_example 5 = Some 7
   \<and> hash_get (\<lambda>x. x) (hash_example\<lparr>h_values := [0, 0, 0, 0]\<rparr>) 5 = Some NULL
   \<and> hash_members (hash_example\<lparr>h_values := [0, 0, 0, 0]\<rparr>) = 1
   \<and> h_keys (hash_example\<lparr>h_values := [0, 0, 0, 0]\<rparr>) = [0, 5, 0, 0]
   \<and> hash_iter (hash_example\<lparr>h_values := [0, 0, 0, 0]\<rparr>) 0 = Some (False, HASH_END, None)"
proof -
  have key: "(5 :: ptr) \<noteq> NULL" by (simp add: NULL_def)
  have present: "5 \<in> set (h_keys hash_example)" by (simp add: hash_example_def)
  have del: "hash_delete (\<lambda>x. x) hash_example 5 = Some (hash_example\<lparr>h_values := [0, 0, 0, 0]\<rparr>)"
    by (simp add: hash_delete_def hash_example_def hash_slot_4_5 hash_delete_loop.simps NULL_def)
  have get: "hash_get (\<lambda>x. x) hash_example 5 = Some 7"
    by (simp add: hash_get_def hash_example_def hash_slot_4_5 hash_get_loop.simps)
  have iter: "hash_iter (hash_example\<lparr>h_values := [0, 0, 0, 0]\<rparr>) 0 = Some (False, HASH_END, None)"
    by (simp add: hash_iter_def HASH_END_def hash_example_def hash_iter_loop.simps NULL_def)
  from hash_delete_frame [OF hash_example_reach key present] del get iter show ?thesis
    by (auto simp: hash_example_def hash_members_def)
qed

section \<open>Net initialisers become assignments\<close>























end
